theory Spec2Isabelle
  imports Complex_Main "HOL-Library.Word" "HOL-Library.Multiset" "HOL-Library.AList"
begin

unbundle bit_operations_syntax

chapter \<open>Definitions\<close>

section \<open>Strings and regular expressions of the runtime\<close>

text \<open>
  A string of the source language is a sequence of 16-bit code units. \<open>js\<close> writes
  such a string from its Latin-1 text.
\<close>

type_synonym jschar = "16 word"
type_synonym jsstring = "jschar list"

definition js :: "string \<Rightarrow> jsstring" where
  "js s = map of_char s"

text \<open>
  The case mappings of the runtime (\<open>String.prototype.toLowerCase\<close> and
  \<open>toUpperCase\<close>) are tables of the Unicode standard, not code of this repository.
  They are a parameter of every definition that uses them.
\<close>

record runtime =
  toLowerCase :: "jsstring \<Rightarrow> jsstring"
  toUpperCase :: "jsstring \<Rightarrow> jsstring"

text \<open>
  \<open>Canonicalize\<close> of the language standard for a regular expression with the flag
  \<open>i\<close> and without the flag \<open>u\<close>: the code unit is upper-cased as a one-unit
  string; a result of several units, or an ASCII result for a unit outside ASCII, leaves
  the unit as it is.
\<close>

definition Canonicalize :: "runtime \<Rightarrow> jschar \<Rightarrow> jschar" where
  "Canonicalize rt ch =
     (case toUpperCase rt [ch] of
        [cu] \<Rightarrow> if 128 \<le> ch \<and> cu < 128 then ch else cu
      | _ \<Rightarrow> ch)"

text \<open>
  The line terminators (line feed, carriage return, U+2028, U+2029): without the flag
  \<open>s\<close> the dot of a regular expression matches every code unit but these.
\<close>

definition isLineTerminator :: "jschar \<Rightarrow> bool" where
  "isLineTerminator c = (c = 0x0A \<or> c = 0x0D \<or> c = 0x2028 \<or> c = 0x2029)"

text \<open>The syntax characters of a pattern; \<open>0x5C\<close> is the backslash.\<close>

definition isSyntaxCharacter :: "jschar \<Rightarrow> bool" where
  "isSyntaxCharacter c = (c \<in> set (js ''^$.*+?()[]{}|'') \<or> c = 0x5C)"

text \<open>
  The fragment of the pattern language that \<open>patternToRegExp\<close> writes: the two
  assertions, the dot, a literal code unit (a pattern character, or a syntax character
  behind a backslash), and the star after an atom. \<open>parse_pattern\<close> reads a pattern
  text of that fragment; every other text is outside the model (\<open>None\<close>).
\<close>

datatype atom = Dot | Chr jschar

datatype re_term = AssertStart | AssertEnd | Atom atom | Star atom

fun parse_pattern :: "jsstring \<Rightarrow> re_term list option"
  and parse_quantifier :: "atom \<Rightarrow> jsstring \<Rightarrow> re_term list option" where
  "parse_pattern [] = Some []"
| "parse_pattern (c # cs) =
     (if c = 0x5E then map_option (Cons AssertStart) (parse_pattern cs)
      else if c = 0x24 then map_option (Cons AssertEnd) (parse_pattern cs)
      else if c = 0x2E then parse_quantifier Dot cs
      else if c = 0x5C then
        (case cs of
           [] \<Rightarrow> None
         | d # ds \<Rightarrow> if isSyntaxCharacter d then parse_quantifier (Chr d) ds else None)
      else if isSyntaxCharacter c then None
      else parse_quantifier (Chr c) cs)"
| "parse_quantifier a [] = Some [Atom a]"
| "parse_quantifier a (c # cs) =
     (if c = 0x2A then map_option (Cons (Star a)) (parse_pattern cs)
      else map_option (Cons (Atom a)) (parse_pattern (c # cs)))"

text \<open>
  Matching. \<open>unit_equal\<close> compares two code units, through \<open>Canonicalize\<close> when the
  flag \<open>i\<close> is set. \<open>matches_at\<close> says whether the terms match a prefix of the rest
  of the input (\<open>start\<close> tells whether the rest is the whole input); the star tries
  one more unit or goes on, as backtracking does. \<open>search\<close> is \<open>RegExp.prototype.test\<close>:
  it tries every position of the input from the first.
\<close>

definition unit_equal :: "runtime \<Rightarrow> bool \<Rightarrow> jschar \<Rightarrow> jschar \<Rightarrow> bool" where
  "unit_equal rt ic c d = (if ic then Canonicalize rt c = Canonicalize rt d else c = d)"

definition atom_matches :: "runtime \<Rightarrow> bool \<Rightarrow> atom \<Rightarrow> jschar \<Rightarrow> bool" where
  "atom_matches rt ic a c =
     (case a of
        Dot \<Rightarrow> \<not> isLineTerminator c
      | Chr d \<Rightarrow> unit_equal rt ic c d)"

fun matches_at :: "runtime \<Rightarrow> bool \<Rightarrow> re_term list \<Rightarrow> bool \<Rightarrow> jsstring \<Rightarrow> bool" where
  "matches_at rt ic [] start s = True"
| "matches_at rt ic (AssertStart # ts) start s = (start \<and> matches_at rt ic ts start s)"
| "matches_at rt ic (AssertEnd # ts) start s = (s = [] \<and> matches_at rt ic ts start s)"
| "matches_at rt ic (Atom a # ts) start [] = False"
| "matches_at rt ic (Atom a # ts) start (c # s) =
     (atom_matches rt ic a c \<and> matches_at rt ic ts False s)"
| "matches_at rt ic (Star a # ts) start [] = matches_at rt ic ts start []"
| "matches_at rt ic (Star a # ts) start (c # s) =
     ((atom_matches rt ic a c \<and> matches_at rt ic (Star a # ts) False s)
      \<or> matches_at rt ic ts start (c # s))"

fun search :: "runtime \<Rightarrow> bool \<Rightarrow> re_term list \<Rightarrow> bool \<Rightarrow> jsstring \<Rightarrow> bool" where
  "search rt ic ts start [] = matches_at rt ic ts start []"
| "search rt ic ts start (c # s) =
     (matches_at rt ic ts start (c # s) \<or> search rt ic ts False s)"

datatype like_flags = NoFlags | FlagI

record RegExp =
  source :: "re_term list"
  ignoreCase :: bool

datatype like_error = TrailingEscape | SyntaxError

definition new_RegExp :: "jsstring \<Rightarrow> like_flags \<Rightarrow> like_error + RegExp" where
  "new_RegExp pattern flags =
     (case parse_pattern pattern of
        None \<Rightarrow> Inl SyntaxError
      | Some ts \<Rightarrow> Inr \<lparr>source = ts, ignoreCase = (flags = FlagI)\<rparr>)"

definition RegExp_test :: "runtime \<Rightarrow> RegExp \<Rightarrow> jsstring \<Rightarrow> bool" where
  "RegExp_test rt re s = search rt (ignoreCase re) (source re) True s"

text \<open>
  A runtime for evaluating examples: the case mappings of Unicode on the Basic Latin
  block (U+0000 to U+007F) and on U+212A, the Kelvin sign, whose lower case is the letter
  k and which is its own upper case. Other code units are left unchanged by this table,
  so it stands for the runtime only on strings over those code units.
\<close>

definition unit_toLowerCase :: "jschar \<Rightarrow> jschar" where
  "unit_toLowerCase c =
     (if 0x41 \<le> c \<and> c \<le> 0x5A then c + 0x20 else if c = 0x212A then 0x6B else c)"

definition unit_toUpperCase :: "jschar \<Rightarrow> jschar" where
  "unit_toUpperCase c = (if 0x61 \<le> c \<and> c \<le> 0x7A then c - 0x20 else c)"

definition basic_latin :: runtime where
  "basic_latin = \<lparr>toLowerCase = map unit_toLowerCase, toUpperCase = map unit_toUpperCase\<rparr>"

text \<open>The two tables on the Basic Latin block, as functions on numbers.\<close>

definition nat_lower :: "nat \<Rightarrow> nat" where
  "nat_lower n = (if 65 \<le> n \<and> n \<le> 90 then n + 32 else n)"

definition nat_upper :: "nat \<Rightarrow> nat" where
  "nat_upper n = (if 97 \<le> n \<and> n \<le> 122 then n - 32 else n)"

section \<open>LIKE patterns (getLikeOp, patternToRegExp)\<close>

text \<open>
  \<open>specialCharsRe\<close> is the character class of the source: dollar, parentheses, star,
  plus, dot, question mark, brackets, backslash, caret, braces and bar.
\<close>

definition specialCharsRe_test :: "jschar \<Rightarrow> bool" where
  "specialCharsRe_test c = (c \<in> set (js ''$()*+.?[]^{|}'') \<or> c = 0x5C)"

text \<open>
  The loop of \<open>patternToRegExp\<close>, with the text built so far as accumulator.
  \<open>0x25\<close> is the percent sign, \<open>0x5F\<close> the underscore, \<open>0x5C\<close> the backslash.
  A backslash that is the last unit of the pattern throws; otherwise it steps over
  itself and the unit behind it falls through to the default case, as does any other
  unit: a backslash is written before a special character, then the unit itself.
\<close>

fun patternToRegExp_loop :: "jsstring \<Rightarrow> jsstring \<Rightarrow> like_error + jsstring" where
  "patternToRegExp_loop [] pattern = Inr pattern"
| "patternToRegExp_loop (c # rest) pattern =
     (if c = 0x25 then patternToRegExp_loop rest (pattern @ js ''.*'')
      else if c = 0x5F then patternToRegExp_loop rest (pattern @ js ''.'')
      else if c = 0x5C then
        (case rest of
           [] \<Rightarrow> Inl TrailingEscape
         | d # rest' \<Rightarrow>
             patternToRegExp_loop rest'
               (pattern @ (if specialCharsRe_test d then [0x5C] else []) @ [d]))
      else patternToRegExp_loop rest
             (pattern @ (if specialCharsRe_test c then [0x5C] else []) @ [c]))"

definition patternToRegExp :: "jsstring \<Rightarrow> like_flags \<Rightarrow> like_error + RegExp" where
  "patternToRegExp src flags =
     (case patternToRegExp_loop src (js ''^'') of
        Inl e \<Rightarrow> Inl e
      | Inr pattern \<Rightarrow> new_RegExp (pattern @ js ''$'') flags)"

text \<open>The test of \<open>getLikeOp\<close> for an underscore, a percent sign or a backslash.\<close>

definition has_wildcard :: "jsstring \<Rightarrow> bool" where
  "has_wildcard pattern = list_ex (\<lambda>c. c = 0x5F \<or> c = 0x25 \<or> c = 0x5C) pattern"

definition getLikeOp ::
  "runtime \<Rightarrow> jsstring \<Rightarrow> like_flags \<Rightarrow> like_error + (jsstring \<Rightarrow> bool)" where
  "getLikeOp rt pattern flags =
     (if \<not> has_wildcard pattern then
        (if flags = FlagI then
           (let rhsLower = toLowerCase rt pattern in Inr (\<lambda>lhs. toLowerCase rt lhs = rhsLower))
         else Inr (\<lambda>lhs. lhs = pattern))
      else
        (case patternToRegExp pattern flags of
           Inl e \<Rightarrow> Inl e
         | Inr re \<Rightarrow> Inr (\<lambda>lhs. RegExp_test rt re lhs)))"

text \<open>
  \<open>evalLike\<close> is \<open>getLikeOp(pattern, flags)(lhs)\<close>, and \<open>evalRegExp\<close> is
  \<open>patternToRegExp(pattern, flags).test(lhs)\<close>, the general compilation without the
  shortcut of \<open>getLikeOp\<close>.
\<close>

definition evalLike :: "runtime \<Rightarrow> jsstring \<Rightarrow> like_flags \<Rightarrow> jsstring \<Rightarrow> like_error + bool" where
  "evalLike rt pattern flags lhs = map_sum id (\<lambda>f. f lhs) (getLikeOp rt pattern flags)"

definition evalRegExp :: "runtime \<Rightarrow> jsstring \<Rightarrow> like_flags \<Rightarrow> jsstring \<Rightarrow> like_error + bool" where
  "evalRegExp rt pattern flags lhs =
     map_sum id (\<lambda>re. RegExp_test rt re lhs) (patternToRegExp pattern flags)"

text \<open>
  The specification's LIKE, written from its words: the percent sign stands for any run
  of characters, the underscore for exactly one character, and a backslash makes the
  character behind it stand for itself. \<open>E\<close> compares two characters: equality for
  LIKE, equality up to case for ILIKE. A pattern that ends in a lone backslash matches
  nothing here; the specification asks for an error in that case.
\<close>

fun sql_like :: "(jschar \<Rightarrow> jschar \<Rightarrow> bool) \<Rightarrow> jsstring \<Rightarrow> jsstring \<Rightarrow> bool" where
  "sql_like E [] s = (s = [])"
| "sql_like E (p # ps) s =
     (if p = 0x25 then
        (sql_like E ps s \<or> (case s of [] \<Rightarrow> False | c # s' \<Rightarrow> sql_like E (p # ps) s'))
      else if p = 0x5F then
        (case s of [] \<Rightarrow> False | c # s' \<Rightarrow> sql_like E ps s')
      else if p = 0x5C then
        (case ps of
           [] \<Rightarrow> False
         | q # qs \<Rightarrow> (case s of [] \<Rightarrow> False | c # s' \<Rightarrow> E c q \<and> sql_like E qs s'))
      else (case s of [] \<Rightarrow> False | c # s' \<Rightarrow> E c p \<and> sql_like E ps s'))"

text \<open>
  Three functions that follow the loop of \<open>patternToRegExp\<close> and are used to describe
  its result: whether the pattern ends in a lone backslash, the text the loop appends,
  and the terms that text stands for.
\<close>

fun trailing_escape :: "jsstring \<Rightarrow> bool" where
  "trailing_escape [] = False"
| "trailing_escape (c # rest) =
     (if c = 0x5C then (case rest of [] \<Rightarrow> True | d # rest' \<Rightarrow> trailing_escape rest')
      else trailing_escape rest)"

fun like_source :: "jsstring \<Rightarrow> jsstring" where
  "like_source [] = []"
| "like_source (c # rest) =
     (if c = 0x25 then js ''.*'' @ like_source rest
      else if c = 0x5F then js ''.'' @ like_source rest
      else if c = 0x5C then
        (case rest of
           [] \<Rightarrow> []
         | d # rest' \<Rightarrow> (if specialCharsRe_test d then [0x5C] else []) @ [d] @ like_source rest')
      else (if specialCharsRe_test c then [0x5C] else []) @ [c] @ like_source rest)"

fun like_terms :: "jsstring \<Rightarrow> re_term list" where
  "like_terms [] = []"
| "like_terms (c # rest) =
     (if c = 0x25 then Star Dot # like_terms rest
      else if c = 0x5F then Atom Dot # like_terms rest
      else if c = 0x5C then
        (case rest of [] \<Rightarrow> [] | d # rest' \<Rightarrow> Atom (Chr d) # like_terms rest')
      else Atom (Chr c) # like_terms rest)"

definition no_star :: "jsstring \<Rightarrow> bool" where
  "no_star s = (case s of [] \<Rightarrow> True | c # _ \<Rightarrow> c \<noteq> 0x2A)"

section \<open>Operators of simple conditions (getOperator)\<close>

text \<open>
  The values of rows and of query literals. They come from JSON, so a number is a
  rational (no NaN). Arrays and objects are compared by identity under \<open>===\<close>, in
  \<open>Array.prototype.includes\<close> and in \<open>Set.prototype.has\<close>, and an array or object of
  a row is never the same object as one of a query; so strict equality is structural
  equality on the other values and false on arrays and objects.
\<close>

datatype jsvalue =
    JUndefined
  | JNull
  | JBool bool
  | JNum rat
  | JStr jsstring
  | JArr "jsvalue list"
  | JObj "(jsstring \<times> jsvalue) list"

fun is_object :: "jsvalue \<Rightarrow> bool" where
  "is_object (JArr xs) = True"
| "is_object (JObj kvs) = True"
| "is_object v = False"

definition strict_equals :: "jsvalue \<Rightarrow> jsvalue \<Rightarrow> bool" where
  "strict_equals a b = (a = b \<and> \<not> is_object a)"

definition Array_includes :: "jsvalue list \<Rightarrow> jsvalue \<Rightarrow> bool" where
  "Array_includes xs v = list_ex (\<lambda>x. strict_equals x v) xs"

text \<open>
  \<open>Set_size xs\<close> is \<open>new Set(xs).size\<close>: equal values count once, every array and
  object counts.
\<close>

definition Set_size :: "jsvalue list \<Rightarrow> nat" where
  "Set_size xs =
     length (remdups (filter (\<lambda>x. \<not> is_object x) xs)) + length (filter is_object xs)"

text \<open>
  The relational operator \<open><\<close> of the runtime on two numbers and on two strings
  (by code units). On operands of other types the runtime coerces; that is outside the
  model (\<open>None\<close>).
\<close>

fun str_less :: "jsstring \<Rightarrow> jsstring \<Rightarrow> bool" where
  "str_less [] [] = False"
| "str_less [] (y # ys) = True"
| "str_less (x # xs) [] = False"
| "str_less (x # xs) (y # ys) = (x < y \<or> (x = y \<and> str_less xs ys))"

definition js_less :: "jsvalue \<Rightarrow> jsvalue \<Rightarrow> bool option" where
  "js_less a b =
     (case (a, b) of
        (JNum x, JNum y) \<Rightarrow> Some (x < y)
      | (JStr x, JStr y) \<Rightarrow> Some (str_less x y)
      | _ \<Rightarrow> None)"

text \<open>The operators of a simple condition, and the condition itself.\<close>

datatype operator =
    OpEq | OpNe | OpLt | OpGt | OpGe | OpLe | OpIn | OpNotIn
  | OpLike | OpNotLike | OpILike | OpNotILike
  | OpIntersects | OpDisjoint | OpSuperset | OpCongruent | OpIncongruent | OpSubset

record 'f SimpleCondition =
  cond_op :: operator
  cond_field :: 'f
  cond_value :: jsvalue

text \<open>
  \<open>not_fn\<close> is the function \<open>not\<close> of the source. The source's comment says the
  operands are well typed by the query builder: a LIKE operator is applied to strings,
  a set operator has an array on its right. \<open>on_string\<close> and \<open>on_array\<close> state that
  assumption: on operands of other types the predicate has no value in the model
  (\<open>None\<close>).
\<close>

definition not_fn :: "('a \<Rightarrow> bool) \<Rightarrow> 'a \<Rightarrow> bool" where
  "not_fn f = (\<lambda>lhs. \<not> f lhs)"

definition on_string :: "(jsstring \<Rightarrow> bool) \<Rightarrow> jsvalue \<Rightarrow> bool option" where
  "on_string f lhs = (case lhs of JStr s \<Rightarrow> Some (f s) | _ \<Rightarrow> None)"

definition like_operator ::
  "runtime \<Rightarrow> jsvalue \<Rightarrow> like_flags \<Rightarrow> ((jsstring \<Rightarrow> bool) \<Rightarrow> jsstring \<Rightarrow> bool)
     \<Rightarrow> like_error + (jsvalue \<Rightarrow> bool option)" where
  "like_operator rt rhs flags wrap =
     (case rhs of
        JStr pattern \<Rightarrow>
          (case getLikeOp rt pattern flags of
             Inl e \<Rightarrow> Inl e
           | Inr f \<Rightarrow> Inr (on_string (wrap f)))
      | _ \<Rightarrow> Inr (\<lambda>lhs. None))"

definition on_array :: "jsvalue \<Rightarrow> (jsvalue list \<Rightarrow> jsvalue \<Rightarrow> bool) \<Rightarrow> jsvalue \<Rightarrow> bool option" where
  "on_array rhs f = (\<lambda>lhs. case rhs of JArr xs \<Rightarrow> Some (f xs lhs) | _ \<Rightarrow> None)"

text \<open>
  \<open>getOperator\<close>, case by case as the \<open>switch\<close> of the source. It throws only
  through \<open>getLikeOp\<close>.
\<close>

definition getOperator ::
  "runtime \<Rightarrow> 'f SimpleCondition \<Rightarrow> like_error + (jsvalue \<Rightarrow> bool option)" where
  "getOperator rt condition =
     (let rhs = cond_value condition in
      case cond_op condition of
        OpEq \<Rightarrow> Inr (\<lambda>lhs. Some (strict_equals lhs rhs))
      | OpNe \<Rightarrow> Inr (\<lambda>lhs. Some (\<not> strict_equals lhs rhs))
      | OpLt \<Rightarrow> Inr (\<lambda>lhs. js_less lhs rhs)
      | OpGt \<Rightarrow> Inr (\<lambda>lhs. js_less rhs lhs)
      | OpGe \<Rightarrow> Inr (\<lambda>lhs. map_option Not (js_less lhs rhs))
      | OpLe \<Rightarrow> Inr (\<lambda>lhs. map_option Not (js_less rhs lhs))
      | OpIn \<Rightarrow> Inr (on_array rhs (\<lambda>xs lhs. Array_includes xs lhs))
      | OpNotIn \<Rightarrow> Inr (on_array rhs (\<lambda>xs lhs. \<not> Array_includes xs lhs))
      | OpLike \<Rightarrow> like_operator rt rhs NoFlags id
      | OpNotLike \<Rightarrow> like_operator rt rhs NoFlags not_fn
      | OpILike \<Rightarrow> like_operator rt rhs FlagI id
      | OpNotILike \<Rightarrow> like_operator rt rhs FlagI not_fn
      | OpIntersects \<Rightarrow>
          Inr (on_array rhs (\<lambda>xs lhs.
            case lhs of JArr ys \<Rightarrow> list_ex (\<lambda>x. Array_includes xs x) ys | _ \<Rightarrow> Array_includes xs lhs))
      | OpDisjoint \<Rightarrow>
          Inr (on_array rhs (\<lambda>xs lhs.
            case lhs of JArr ys \<Rightarrow> list_all (\<lambda>x. \<not> Array_includes xs x) ys | _ \<Rightarrow> \<not> Array_includes xs lhs))
      | OpSuperset \<Rightarrow>
          Inr (on_array rhs (\<lambda>xs lhs.
            if length xs = 0 then True
            else case lhs of
              JArr ys \<Rightarrow> list_all (\<lambda>x. Array_includes ys x) xs
            | _ \<Rightarrow> length xs = 1 \<and> strict_equals lhs (xs ! 0)))
      | OpCongruent \<Rightarrow>
          Inr (on_array rhs (\<lambda>xs lhs.
            case lhs of
              JArr ys \<Rightarrow> Set_size xs = length ys \<and> list_all (\<lambda>x. Array_includes xs x) ys
            | _ \<Rightarrow> length xs = 1 \<and> strict_equals lhs (xs ! 0)))
      | OpIncongruent \<Rightarrow>
          Inr (on_array rhs (\<lambda>xs lhs.
            case lhs of
              JArr ys \<Rightarrow> Set_size xs \<noteq> length ys \<or> \<not> list_all (\<lambda>x. Array_includes xs x) ys
            | _ \<Rightarrow> length xs \<noteq> 1 \<or> \<not> strict_equals lhs (xs ! 0)))
      | OpSubset \<Rightarrow>
          Inr (on_array rhs (\<lambda>xs lhs.
            case lhs of JArr ys \<Rightarrow> list_all (\<lambda>x. Array_includes xs x) ys | _ \<Rightarrow> Array_includes xs lhs)))"

definition evalOperator ::
  "runtime \<Rightarrow> 'f SimpleCondition \<Rightarrow> jsvalue \<Rightarrow> like_error + bool option" where
  "evalOperator rt condition lhs = map_sum id (\<lambda>f. f lhs) (getOperator rt condition)"

section \<open>Where-conditions (applyWhere, applyAnd, applyOr)\<close>

text \<open>
  A where-condition is a conjunction, a disjunction or a simple condition (the
  \<open>switch (where.op)\<close> of \<open>applyWhere\<close>: \<open>AND\<close>, \<open>OR\<close>, default).
\<close>

datatype 'c Condition = And "'c Condition list" | Or "'c Condition list" | Simple 'c

text \<open>
  The operator graph that \<open>applyWhere\<close> builds on the stream it is given (\<open>Source\<close>),
  out of the three operators it uses: \<open>filter\<close>, \<open>concat\<close> and \<open>distinct\<close>.
\<close>

datatype 'row DifferenceStream =
    Source
  | Filter "'row \<Rightarrow> bool" "'row DifferenceStream"
  | Concat "'row DifferenceStream list"
  | Distinct "'row DifferenceStream"

text \<open>
  \<open>applySimpleCondition\<close> filters the stream by
  \<open>x => operator(getValueFromEntity(x, column))\<close>, where \<open>operator\<close> is
  \<open>getOperator(condition)\<close>. The parameter \<open>predicate\<close> gives that closure for a
  condition, or the error \<open>getOperator\<close> throws. \<open>branches\<close> is
  \<open>conditions.map(c => applyWhere(stream, c))\<close> of \<open>applyOr\<close>.
\<close>

definition applySimpleCondition ::
  "('c \<Rightarrow> 'e + ('row \<Rightarrow> bool)) \<Rightarrow> 'row DifferenceStream \<Rightarrow> 'c \<Rightarrow> 'e + 'row DifferenceStream" where
  "applySimpleCondition predicate stream condition =
     (case predicate condition of
        Inl e \<Rightarrow> Inl e
      | Inr p \<Rightarrow> Inr (Filter p stream))"

fun applyWhere ::
    "('c \<Rightarrow> 'e + ('row \<Rightarrow> bool)) \<Rightarrow> 'row DifferenceStream \<Rightarrow> 'c Condition
       \<Rightarrow> 'e + 'row DifferenceStream"
  and applyAnd ::
    "('c \<Rightarrow> 'e + ('row \<Rightarrow> bool)) \<Rightarrow> 'row DifferenceStream \<Rightarrow> 'c Condition list
       \<Rightarrow> 'e + 'row DifferenceStream"
  and branches ::
    "('c \<Rightarrow> 'e + ('row \<Rightarrow> bool)) \<Rightarrow> 'row DifferenceStream \<Rightarrow> 'c Condition list
       \<Rightarrow> 'e + 'row DifferenceStream list" where
  "applyWhere predicate stream (And conditions) = applyAnd predicate stream conditions"
| "applyWhere predicate stream (Or conditions) =
     (case branches predicate stream conditions of
        Inl e \<Rightarrow> Inl e
      | Inr bs \<Rightarrow> Inr (Distinct (Concat bs)))"
| "applyWhere predicate stream (Simple condition) =
     applySimpleCondition predicate stream condition"
| "applyAnd predicate stream [] = Inr stream"
| "applyAnd predicate stream (condition # conditions) =
     (case applyWhere predicate stream condition of
        Inl e \<Rightarrow> Inl e
      | Inr stream' \<Rightarrow> applyAnd predicate stream' conditions)"
| "branches predicate stream [] = Inr []"
| "branches predicate stream (c # conditions) =
     (case applyWhere predicate stream c of
        Inl e \<Rightarrow> Inl e
      | Inr b \<Rightarrow>
          (case branches predicate stream conditions of
             Inl e \<Rightarrow> Inl e
           | Inr bs \<Rightarrow> Inr (b # bs)))"

text \<open>
  Modelled from the spec: the class \<open>DifferenceStream\<close> (ivm/graph/difference-stream.js)
  is not among the sources. The specification says that operators consume and produce
  multisets, that a filter passes the rows satisfying its predicate, that the branches of
  an OR are concatenated, and that the distinct operator deduplicates. \<open>rows_of src g\<close>
  is the multiset of rows the graph \<open>g\<close> yields when its source holds \<open>src\<close>.
\<close>

fun rows_of :: "'row multiset \<Rightarrow> 'row DifferenceStream \<Rightarrow> 'row multiset" where
  "rows_of src Source = src"
| "rows_of src (Filter p s) = filter_mset p (rows_of src s)"
| "rows_of src (Concat ss) = sum_list (map (rows_of src) ss)"
| "rows_of src (Distinct s) = mset_set (set_mset (rows_of src s))"

text \<open>What a condition says of a row: all conjuncts, some disjunct, the predicate.\<close>

fun satisfies :: "('c \<Rightarrow> 'e + ('row \<Rightarrow> bool)) \<Rightarrow> 'c Condition \<Rightarrow> 'row \<Rightarrow> bool" where
  "satisfies predicate (And conditions) r = list_all (\<lambda>c. satisfies predicate c r) conditions"
| "satisfies predicate (Or conditions) r = list_ex (\<lambda>c. satisfies predicate c r) conditions"
| "satisfies predicate (Simple c) r = (case predicate c of Inl e \<Rightarrow> False | Inr p \<Rightarrow> p r)"

definition at_most_once :: "'a multiset \<Rightarrow> bool" where
  "at_most_once M = (\<forall>r. count M r \<le> 1)"

text \<open>An example: the rows are numbers, condition 0 asks for an even row, 1 for a row below 5.\<close>

definition nat_predicate :: "nat \<Rightarrow> unit + (nat \<Rightarrow> bool)" where
  "nat_predicate c =
     (if c = 0 then Inr (\<lambda>n. even n) else if c = 1 then Inr (\<lambda>n. n < 5) else Inl ())"

section \<open>Connection: dispatch of inbound messages (zero-cache/src/workers/connection.ts)\<close>

text \<open>
  The error kinds of the wire protocol and the messages a connection writes to its socket.
  Only the messages the connection itself produces are listed; the pokes of the view
  syncer travel through \<open>#proxyOutbound\<close>, which runs beside the handler.
\<close>

datatype ErrorKind = InvalidMessage | InvalidPush | MutationFailed | Internal

datatype downstream = Connected | Pong | ErrorMessage ErrorKind string

text \<open>
  A frame that passed \<open>JSON.parse\<close> and \<open>valita.parse\<close> is one of the six
  upstream messages; a frame that did not carries the text of the exception.
  \<open>'m\<close> is the type of a mutation, \<open>'q\<close> the body of a query message.
\<close>

datatype ('m, 'q) upstream =
    Ping
  | Push string "'m list"
  | Pull
  | ChangeDesiredQueries 'q
  | DeleteClients
  | InitConnection 'q

datatype ('m, 'q) frame = Malformed string | Wellformed "('m, 'q) upstream"

text \<open>
  A value thrown by a collaborator: \<open>findErrorForClient\<close> either finds an error
  message meant for the client or the handler falls back to \<open>Internal\<close> with
  \<open>String(e)\<close>.
\<close>

datatype thrown = ErrorForClient ErrorKind string | OtherThrown string

text \<open>
  The mutation service and the view syncer are collaborators of the connection. Their
  answers are parameters of the model: \<open>processMutation\<close> resolves to an optional
  error description or rejects, the view syncer's operations resolve or reject.
\<close>

record ('m, 'q, 's) services =
  processMutation :: "'m \<Rightarrow> thrown + string option"
  changeDesiredQueries :: "'q \<Rightarrow> thrown option"
  initConnection :: "'q \<Rightarrow> thrown + 's"

datatype 'q viewSyncer_call = ChangeDesiredQueriesCall 'q | InitConnectionCall 'q

text \<open>
  The fields of \<open>Connection\<close> that the handler reads or writes, and the effects it has
  on its collaborators, kept as logs: what was written to the socket, which mutations
  were handed to the mutation service, which calls reached the view syncer, which
  outbound streams were cancelled.
\<close>

record ('m, 'q, 's) connection =
  clientGroupID :: string
  closed :: bool
  ws_closed :: bool
  sent :: "downstream list"
  forwarded :: "'m list"
  viewSyncer_calls :: "'q viewSyncer_call list"
  outboundStream :: "'s option"
  cancelled :: "'s list"
  onClose_calls :: nat

definition new_Connection :: "string \<Rightarrow> ('m, 'q, 's) connection" where
  "new_Connection cg =
     \<lparr>clientGroupID = cg, closed = False, ws_closed = False, sent = [Connected],
      forwarded = [], viewSyncer_calls = [], outboundStream = None, cancelled = [],
      onClose_calls = 0\<rparr>"

definition send :: "('m, 'q, 's) connection \<Rightarrow> downstream \<Rightarrow> ('m, 'q, 's) connection" where
  "send c d = c\<lparr>sent := sent c @ [d]\<rparr>"

definition sendError ::
  "('m, 'q, 's) connection \<Rightarrow> ErrorKind \<Rightarrow> string \<Rightarrow> ('m, 'q, 's) connection" where
  "sendError c kind desc = send c (ErrorMessage kind desc)"

definition close :: "('m, 'q, 's) connection \<Rightarrow> ('m, 'q, 's) connection" where
  "close c =
     (if closed c then c
      else c\<lparr>closed := True,
             cancelled := (case outboundStream c of None \<Rightarrow> cancelled c
                           | Some s \<Rightarrow> cancelled c @ [s]),
             outboundStream := None,
             onClose_calls := Suc (onClose_calls c),
             ws_closed := True\<rparr>)"

definition closeWithError ::
  "('m, 'q, 's) connection \<Rightarrow> ErrorKind \<Rightarrow> string \<Rightarrow> ('m, 'q, 's) connection" where
  "closeWithError c kind desc = close (sendError c kind desc)"

definition closeWithThrown ::
  "('m, 'q, 's) connection \<Rightarrow> thrown \<Rightarrow> ('m, 'q, 's) connection" where
  "closeWithThrown c e =
     (case e of
        ErrorForClient kind desc \<Rightarrow> closeWithError c kind desc
      | OtherThrown desc \<Rightarrow> closeWithError c Internal desc)"

text \<open>
  The loop \<open>for (const mutation of mutations)\<close> of the \<open>push\<close> case. Each mutation is
  handed to the mutation service; a description that comes back is sent as
  \<open>MutationFailed\<close> and the loop goes on; a rejection leaves the loop and is returned
  beside the state reached, for the handler's \<open>catch\<close>.
\<close>

fun forwardMutations ::
  "('m, 'q, 's) services \<Rightarrow> ('m, 'q, 's) connection \<Rightarrow> 'm list
     \<Rightarrow> ('m, 'q, 's) connection \<times> thrown option" where
  "forwardMutations sv c [] = (c, None)"
| "forwardMutations sv c (m # ms) =
     (let c1 = c\<lparr>forwarded := forwarded c @ [m]\<rparr> in
      case processMutation sv m of
        Inl e \<Rightarrow> (c1, Some e)
      | Inr None \<Rightarrow> forwardMutations sv c1 ms
      | Inr (Some errorDesc) \<Rightarrow> forwardMutations sv (sendError c1 MutationFailed errorDesc) ms)"

definition mismatch_text :: "string \<Rightarrow> string \<Rightarrow> string" where
  \<open>mismatch_text theirs ours =
     ''clientGroupID in mutation "'' @ theirs @ ''" does not match '' @
     ''clientGroupID of connection "'' @ ours\<close>

text \<open>
  The \<open>switch (msgType)\<close> inside the second \<open>try\<close>. In the \<open>push\<close> case the branch
  of the \<open>if\<close> calls \<open>#closeWithError\<close> and then falls out of the \<open>if\<close>: the source
  has no \<open>return\<close> or \<open>break\<close> there, so the loop over the mutations follows in
  both cases.
\<close>

definition dispatch ::
  "('m, 'q, 's) services \<Rightarrow> ('m, 'q, 's) connection \<Rightarrow> ('m, 'q) upstream
     \<Rightarrow> ('m, 'q, 's) connection \<times> thrown option" where
  "dispatch sv c msg =
     (case msg of
        Ping \<Rightarrow> (send c Pong, None)
      | Push cg mutations \<Rightarrow>
          (let c1 = (if cg \<noteq> clientGroupID c
                     then closeWithError c InvalidPush (mismatch_text cg (clientGroupID c))
                     else c)
           in forwardMutations sv c1 mutations)
      | Pull \<Rightarrow> (c, None)
      | ChangeDesiredQueries q \<Rightarrow>
          (c\<lparr>viewSyncer_calls := viewSyncer_calls c @ [ChangeDesiredQueriesCall q]\<rparr>,
           changeDesiredQueries sv q)
      | DeleteClients \<Rightarrow> (c, None)
      | InitConnection q \<Rightarrow>
          (let c1 = c\<lparr>viewSyncer_calls := viewSyncer_calls c @ [InitConnectionCall q]\<rparr> in
           case initConnection sv q of
             Inl e \<Rightarrow> (c1, Some e)
           | Inr s \<Rightarrow>
               (let c2 = c1\<lparr>outboundStream := Some s\<rparr> in
                if closed c2 then (c2\<lparr>cancelled := cancelled c2 @ [s]\<rparr>, None)
                else (c2, None))))"

definition handleMessage ::
  "('m, 'q, 's) services \<Rightarrow> ('m, 'q, 's) connection \<Rightarrow> ('m, 'q) frame
     \<Rightarrow> ('m, 'q, 's) connection" where
  "handleMessage sv c ev =
     (if closed c then c
      else case ev of
        Malformed e \<Rightarrow> closeWithError c InvalidMessage e
      | Wellformed msg \<Rightarrow>
          (case dispatch sv c msg of
             (c', None) \<Rightarrow> c'
           | (c', Some e) \<Rightarrow> closeWithThrown c' e))"

text \<open>A mutation service that accepts every mutation, and a view syncer that never rejects.\<close>

definition accepting :: "(nat, unit, unit) services" where
  "accepting =
     \<lparr>processMutation = (\<lambda>m. Inr None),
      changeDesiredQueries = (\<lambda>q. None),
      initConnection = (\<lambda>q. Inr ())\<rparr>"

section \<open>Outbound streams (zero-cache/src/types/streams.ts)\<close>

text \<open>
  The numbers of the runtime are doubles. An acknowledgement frame \<open>{ack: n}\<close> is read
  by \<open>JSON.parse\<close>, which gives the double nearest to the numeral written: a finite
  double, which is a rational number, or an infinity when the numeral is too large. The
  events below carry the number as parsed.
\<close>

datatype js_number = Finite rat | PlusInfinity | MinusInfinity

text \<open>
  \<open>++nextID\<close> on a double that holds a natural number: exact up to \<open>2^53\<close>, where
  adding one rounds back to \<open>2^53\<close>. The counter starts at 0, so it never holds
  anything larger.
\<close>

definition increment :: "nat \<Rightarrow> nat" where
  "increment n = (if n < 2 ^ 53 then n + 1 else n)"

text \<open>
  \<open>streamOut\<close> runs beside the events of its socket and its source, so it is modelled as
  a machine that takes one event at a time: the source yields a message or ends, a frame
  arrives on the socket (an acknowledgement that parses, or a frame that does not), or
  the socket closes.
\<close>

datatype 'm out_event =
    SourceYields 'm
  | SourceDone
  | AckFrame js_number
  | BadFrame
  | SocketClosed

text \<open>
  Where the loop \<open>for await (const msg of source)\<close> stands: waiting for the source,
  waiting in \<open>acks.dequeue()\<close> for the acknowledgement of the message it has just sent,
  or left.
\<close>

datatype phase = AwaitingSource | AwaitingAck nat | Exited

datatype outcome = Completed | UnexpectedAck nat js_number

text \<open>
  The variables of \<open>streamOut\<close>: \<open>nextID\<close>, the queue \<open>acks\<close>, the messages written
  to the sink with their identifiers, whether the closer has closed (which cancels the
  source and closes the socket), and how the loop was left.
\<close>

record 'm streamOut_state =
  nextID :: nat
  acks :: "js_number list"
  phase :: phase
  streamed :: "('m \<times> nat) list"
  closer_closed :: bool
  outcome :: "outcome option"

definition streamOut_init :: "'m streamOut_state" where
  "streamOut_init =
     \<lparr>nextID = 0, acks = [], phase = AwaitingSource, streamed = [], closer_closed = False,
      outcome = None\<rparr>"

definition closer_close :: "'m streamOut_state \<Rightarrow> 'm streamOut_state" where
  "closer_close s = s\<lparr>closer_closed := True\<rparr>"

text \<open>
  The test \<open>if (ack !== id) throw\<close> on the acknowledgement that \<open>dequeue\<close> has
  returned; the \<open>catch\<close> closes with the error.
\<close>

definition check_ack :: "'m streamOut_state \<Rightarrow> nat \<Rightarrow> js_number \<Rightarrow> 'm streamOut_state" where
  "check_ack s id' ack =
     (if ack \<noteq> Finite (of_nat id')
      then closer_close (s\<lparr>phase := Exited, outcome := Some (UnexpectedAck id' ack)\<rparr>)
      else s\<lparr>phase := AwaitingSource\<rparr>)"

text \<open>
  One event. The source yields only when the loop asks it and it has not been cancelled;
  the message is sent with the next identifier and the loop takes an acknowledgement
  from the queue, or waits for one. The listener enqueues every frame that parses,
  whatever the loop is doing: the frame resolves the waiting \<open>dequeue\<close>, or stays in
  the queue until the loop dequeues. An event that cannot happen in a state leaves it
  unchanged.
\<close>

definition streamOut_step :: "'m streamOut_state \<Rightarrow> 'm out_event \<Rightarrow> 'm streamOut_state" where
  "streamOut_step s ev =
     (case ev of
        SourceYields msg \<Rightarrow>
          (if phase s = AwaitingSource \<and> \<not> closer_closed s then
             (let id' = increment (nextID s);
                  s1 = s\<lparr>nextID := id', streamed := streamed s @ [(msg, id')]\<rparr>
              in case acks s1 of
                   [] \<Rightarrow> s1\<lparr>phase := AwaitingAck id'\<rparr>
                 | ack # rest \<Rightarrow> check_ack (s1\<lparr>acks := rest\<rparr>) id' ack)
           else s)
      | SourceDone \<Rightarrow>
          (if phase s = AwaitingSource
           then closer_close (s\<lparr>phase := Exited, outcome := Some Completed\<rparr>)
           else s)
      | AckFrame ack \<Rightarrow>
          (case phase s of
             AwaitingAck id' \<Rightarrow> check_ack s id' ack
           | _ \<Rightarrow> s\<lparr>acks := acks s @ [ack]\<rparr>)
      | BadFrame \<Rightarrow> closer_close s
      | SocketClosed \<Rightarrow> closer_close s)"

definition streamOut :: "'m out_event list \<Rightarrow> 'm streamOut_state" where
  "streamOut evs = foldl streamOut_step streamOut_init evs"

text \<open>
  The acknowledgements among the events, in the order of their arrival, and the
  acknowledgement that identifies the message \<open>n\<close>.
\<close>

definition ack_frames :: "'m out_event list \<Rightarrow> js_number list" where
  "ack_frames evs = concat (map (\<lambda>ev. case ev of AckFrame a \<Rightarrow> [a] | _ \<Rightarrow> []) evs)"

definition ack_of :: "nat \<Rightarrow> js_number" where
  "ack_of n = Finite (of_nat n)"

text \<open>
  The acknowledgements the loop has dequeued so far, as its variables tell: it has
  accepted one for each message but the one it waits for, and the one it left on, if it
  left on one.
\<close>

definition dequeued :: "'m streamOut_state \<Rightarrow> js_number list" where
  "dequeued s =
     (case outcome s of
        Some (UnexpectedAck i a) \<Rightarrow> map ack_of [1..<i] @ [a]
      | _ \<Rightarrow>
          (case phase s of
             AwaitingAck i \<Rightarrow> map ack_of [1..<i]
           | _ \<Rightarrow> map ack_of [1..<Suc (nextID s)]))"

text \<open>What holds of every state the machine reaches after the events \<open>evs\<close>.\<close>

definition streamOut_inv :: "'m out_event list \<Rightarrow> 'm streamOut_state \<Rightarrow> bool" where
  "streamOut_inv evs s =
     (nextID s \<le> length evs
      \<and> map snd (streamed s) = [1..<Suc (nextID s)]
      \<and> ack_frames evs = dequeued s @ acks s
      \<and> (\<forall>i. phase s = AwaitingAck i \<longrightarrow> i = nextID s \<and> 1 \<le> i \<and> acks s = [])
      \<and> (outcome s \<noteq> None \<longrightarrow> closer_closed s \<and> phase s = Exited)
      \<and> (phase s = Exited \<longrightarrow> outcome s \<noteq> None)
      \<and> (\<forall>i a. outcome s = Some (UnexpectedAck i a) \<longrightarrow>
            a \<noteq> ack_of i \<and> i = nextID s \<and> 1 \<le> i))"

text \<open>
  An example: the acknowledgement of the first message arrives, then the number 7, then
  the second message is sent.
\<close>

definition early_ack :: "string out_event list" where
  "early_ack =
     [SourceYields ''a'', AckFrame (Finite 1), AckFrame (Finite 7), SourceYields ''b'']"

section \<open>Incremental replication (MessageProcessor, TransactionProcessor)\<close>

text \<open>
  The values the processor catches: an error of the database with its code and the
  schema and table it names, the error a transaction is failed with when one before it
  has failed, and any other error with its text.
\<close>

datatype rep_error =
    PostgresError string string string
  | PrecedingTransactionError rep_error
  | Error string

definition PG_UNIQUE_VIOLATION :: string where
  "PG_UNIQUE_VIOLATION = ''23505''"

text \<open>
  The test of the \<open>catch\<close> in \<open>#createAndEnqueueNewTransaction\<close>: a unique violation
  on the transaction log.
\<close>

definition is_repeat_tx :: "rep_error \<Rightarrow> bool" where
  "is_repeat_tx e =
     (case e of
        PostgresError code schema_name table_name \<Rightarrow>
          code = PG_UNIQUE_VIOLATION \<and> schema_name = ''_zero'' \<and> table_name = ''TxLog''
      | _ \<Rightarrow> False)"

text \<open>
  The replica: the versions in the transaction log, whose primary key is the version, and
  the replicated tables. What a statement on a table does is the database's affair and a
  parameter (\<open>exec_row\<close>), as is \<open>toLexiVersion\<close>, which is not among the sources.
  An insert into the transaction log fails with a unique violation when the version is
  there.

  A statement fails in one of two ways, which \<open>#process\<close> treats differently. Its
  construction throws (the assertions of \<open>processDelete\<close>; \<open>Inl\<close> of the text):
  the exception is caught by the \<open>catch\<close> of \<open>#process\<close>. Or the database rejects
  the query: the handler \<open>q.execute().catch(e => {this.fail(e); throw e})\<close> runs, and
  the promise it returns, which \<open>#pendingQueries\<close> keeps, is rejected.
\<close>

record 'rows replica =
  TxLog :: "string list"
  tables :: 'rows

datatype 'r stmt = InsertTxLog string | RowStmt 'r

datatype failed_statement = Threw rep_error | QueryRejected rep_error

record ('r, 'rows) env =
  exec_row :: "'r \<Rightarrow> 'rows \<Rightarrow> rep_error + 'rows"
  toLexiVersion :: "string \<Rightarrow> string"

definition exec_stmt ::
  "('r, 'rows) env \<Rightarrow> string + 'r stmt \<Rightarrow> 'rows replica \<Rightarrow> failed_statement + 'rows replica" where
  "exec_stmt env st db =
     (case st of
        Inl thrown \<Rightarrow> Inl (Threw (Error thrown))
      | Inr (InsertTxLog v) \<Rightarrow>
          (if v \<in> set (TxLog db)
           then Inl (QueryRejected (PostgresError PG_UNIQUE_VIOLATION ''_zero'' ''TxLog''))
           else Inr (db\<lparr>TxLog := TxLog db @ [v]\<rparr>))
      | Inr (RowStmt r) \<Rightarrow>
          (case exec_row env r (tables db) of
             Inl e \<Rightarrow> Inl (QueryRejected e)
           | Inr rows' \<Rightarrow> Inr (db\<lparr>tables := rows'\<rparr>)))"

text \<open>
  The statements of a transaction in order, on the state the transaction began with;
  the first failure ends it.
\<close>

fun exec_all ::
  "('r, 'rows) env \<Rightarrow> (string + 'r stmt) list \<Rightarrow> 'rows replica
     \<Rightarrow> failed_statement + 'rows replica" where
  "exec_all env [] db = Inr db"
| "exec_all env (st # sts) db =
     (case exec_stmt env st db of
        Inl e \<Rightarrow> Inl e
      | Inr db' \<Rightarrow> exec_all env sts db')"

text \<open>
  The messages of the replication stream. \<open>Begin\<close> carries \<open>commitLsn\<close>, which may
  be missing; \<open>Relation\<close> says whether the replica identity is the default; \<open>Data\<close>
  stands for insert, update, delete and truncate and carries the statement the handler
  builds; \<open>Unknown\<close> is any other tag.
\<close>

datatype 'r message =
    Begin "string option"
  | Relation bool
  | Data "string + 'r"
  | Commit
  | Origin
  | Type string
  | Unknown string

text \<open>
  A \<open>TransactionProcessor\<close>: the statements its messages have queued, whether the commit
  has been processed, its \<open>#failure\<close>, and the state of the two promises made for it
  in \<open>#createAndEnqueueNewTransaction\<close>: \<open>tx\<close>, the database transaction it waits
  for, and \<open>processed\<close>, which it resolves with \<open>#setTxProcessed\<close> and rejects
  with \<open>#setTxFailed\<close>.
\<close>

datatype handle = Pending | Resolved | Rejected rep_error

record 'r TransactionProcessor =
  commitLsn :: string
  pending :: "(string + 'r stmt) list"
  committed :: bool
  tx_failure :: "rep_error option"
  tx :: handle
  processed :: handle

text \<open>
  The \<open>MessageProcessor\<close>: its \<open>#failure\<close>, the transaction being assembled
  (\<open>#tx\<close>, an index into the processors created so far), the callbacks queued on the
  \<open>txSerializer\<close> lock in order, the replica, and the calls of \<open>acknowledge\<close> and
  \<open>failService\<close>.

  Messages arrive while the lock works through its queue, so the processor is a machine
  that takes one event at a time: a message is received (\<open>Recv\<close>); the database
  transaction of the callback at the head of the queue has begun (\<open>Began\<close>:
  \<open>replica.begin\<close> calls its argument, which resolves \<open>tx\<close> and returns
  \<open>processed\<close>); or the callback at the head of the queue runs to its end
  (\<open>LockRun\<close>). The callback of a transaction ends when the transaction has committed
  or failed; the database shows nothing of a transaction before it commits, and
  \<open>#failure\<close> changes only inside callbacks, so the end of the callback is one step,
  taken when it is decided, and it includes the beginning if that has not been taken
  apart.

  \<open>exited\<close>: a promise has been rejected that nothing awaits. The sources install no
  handler for unhandled rejections, so the runtime ends the process when the turn in
  which the promise was rejected is over, and no event after that has an effect.
\<close>

datatype job = TxJob nat | FailJob rep_error

record ('r, 'rows) MessageProcessor =
  failure :: "rep_error option"
  current :: "nat option"
  processors :: "'r TransactionProcessor list"
  txSerializer :: "job list"
  replica :: "'rows replica"
  acknowledged :: "string list"
  failService_calls :: "rep_error list"
  exited :: bool

datatype 'r event = Recv string "'r message" | Began | LockRun

text \<open>
  \<open>TransactionProcessor.fail\<close>, \<open>#process\<close> and \<open>processCommit\<close>: the first
  failure is kept and rejects \<open>processed\<close>, and messages after a failure are dropped.
\<close>

definition tx_fail :: "'r TransactionProcessor \<Rightarrow> rep_error \<Rightarrow> 'r TransactionProcessor" where
  "tx_fail t err =
     (if tx_failure t = None then t\<lparr>tx_failure := Some err, processed := Rejected err\<rparr> else t)"

definition tx_process ::
  "'r TransactionProcessor \<Rightarrow> string + 'r stmt \<Rightarrow> 'r TransactionProcessor" where
  "tx_process t st = (if tx_failure t \<noteq> None then t else t\<lparr>pending := pending t @ [st]\<rparr>)"

definition tx_processCommit :: "'r TransactionProcessor \<Rightarrow> 'r TransactionProcessor" where
  "tx_processCommit t = (if tx_failure t \<noteq> None then t else t\<lparr>committed := True\<rparr>)"

definition update_processor ::
  "('r, 'rows) MessageProcessor \<Rightarrow> nat \<Rightarrow> ('r TransactionProcessor \<Rightarrow> 'r TransactionProcessor)
     \<Rightarrow> ('r, 'rows) MessageProcessor" where
  "update_processor s k f = s\<lparr>processors := (processors s)[k := f (processors s ! k)]\<rparr>"

text \<open>
  Who awaits \<open>processed\<close>: only the callback of the transaction on the lock, and in
  both of its branches from the moment it settles \<open>tx\<close>:
  \<open>failTx(...); return await processed\<close>, and \<open>setTx(tx); return processed\<close> to
  \<open>replica.begin\<close>. So \<open>processed\<close> of the transaction \<open>k\<close> is awaited when
  its \<open>tx\<close> is no longer pending; until then, while the callback waits on the lock
  behind another or for the database to begin the transaction, nothing awaits it.
\<close>

definition awaits_processed :: "('r, 'rows) MessageProcessor \<Rightarrow> nat \<Rightarrow> bool" where
  "awaits_processed s k = (tx (processors s ! k) \<noteq> Pending)"

text \<open>
  \<open>#failInLock\<close> and \<open>#fail\<close>: an error while a transaction is being assembled
  fails that transaction; otherwise the failure is queued on the lock, behind the
  transactions already there. Failing the transaction rejects its \<open>processed\<close>; if
  nothing awaits that promise yet, the rejection is unhandled.
\<close>

definition failInLock ::
  "('r, 'rows) MessageProcessor \<Rightarrow> rep_error \<Rightarrow> ('r, 'rows) MessageProcessor" where
  "failInLock s err =
     (if failure s = None
      then s\<lparr>failure := Some err, failService_calls := failService_calls s @ [err]\<rparr>
      else s)"

definition fail :: "('r, 'rows) MessageProcessor \<Rightarrow> rep_error \<Rightarrow> ('r, 'rows) MessageProcessor" where
  "fail s err =
     (case current s of
        Some k \<Rightarrow>
          (let s' = update_processor s k (\<lambda>t. tx_fail t err) in
           if tx_failure (processors s ! k) = None \<and> \<not> awaits_processed s k
           then s'\<lparr>exited := True\<rparr>
           else s')
      | None \<Rightarrow> s\<lparr>txSerializer := txSerializer s @ [FailJob err]\<rparr>)"

definition createAndEnqueueNewTransaction ::
  "('r, 'rows) MessageProcessor \<Rightarrow> string \<Rightarrow> ('r, 'rows) MessageProcessor" where
  "createAndEnqueueNewTransaction s lsn =
     s\<lparr>processors := processors s @
          [\<lparr>commitLsn = lsn, pending = [], committed = False, tx_failure = None, tx = Pending,
            processed = Pending\<rparr>],
       txSerializer := txSerializer s @ [TxJob (length (processors s))],
       current := Some (length (processors s))\<rparr>"

text \<open>
  \<open>processMessage\<close> with \<open>#processMessage\<close> and its \<open>catch\<close>. The texts of the
  errors are shortened.
\<close>

definition processMessage ::
  "('r, 'rows) env \<Rightarrow> ('r, 'rows) MessageProcessor \<Rightarrow> 'r message \<Rightarrow> ('r, 'rows) MessageProcessor" where
  "processMessage env s message =
     (if failure s \<noteq> None then s
      else case message of
        Begin lsn \<Rightarrow>
          (case lsn of
             None \<Rightarrow> fail s (Error ''Assertion failed'')
           | Some l \<Rightarrow>
               (case current s of
                  Some k \<Rightarrow> fail s (Error ''Already in a transaction'')
                | None \<Rightarrow>
                    (let s1 = createAndEnqueueNewTransaction s l in
                     update_processor s1 (length (processors s))
                       (\<lambda>t. tx_process t (Inr (InsertTxLog (toLexiVersion env l)))))))
      | _ \<Rightarrow>
          (case current s of
             None \<Rightarrow> fail s (Error ''Received message outside of transaction'')
           | Some k \<Rightarrow>
               (case message of
                  Relation is_default \<Rightarrow>
                    (if \<not> is_default then fail s (Error ''REPLICA IDENTITY must be DEFAULT'')
                     else s)
                | Data d \<Rightarrow>
                    update_processor s k
                      (\<lambda>t. tx_process t (case d of Inl a \<Rightarrow> Inl a | Inr r \<Rightarrow> Inr (RowStmt r)))
                | Commit \<Rightarrow> update_processor (s\<lparr>current := None\<rparr>) k tx_processCommit
                | Origin \<Rightarrow> s
                | Type name \<Rightarrow> fail s (Error ''Custom types are not supported'')
                | _ \<Rightarrow> fail s (Error ''Don't know how to handle message''))))"

text \<open>
  The \<open>catch\<close> of the callback: a repeated transaction is acknowledged again, any
  other error fails the processor.
\<close>

definition settle ::
  "('r, 'rows) MessageProcessor \<Rightarrow> string \<Rightarrow> rep_error \<Rightarrow> ('r, 'rows) MessageProcessor" where
  "settle s lsn e =
     (if is_repeat_tx e then s\<lparr>acknowledged := acknowledged s @ [lsn]\<rparr>
      else failInLock s e)"

text \<open>
  The callback of the transaction \<open>k\<close>. If a transaction before it has failed, its
  \<open>tx\<close> is rejected with \<open>PrecedingTransactionError\<close> and nothing else happens.
  Otherwise the database transaction begins. If the transaction has failed while it was
  assembled, or the construction of one of its statements throws, it is rolled back and
  the error is settled. If all statements succeed and the commit has been processed, it
  commits and is acknowledged. If the commit has not arrived yet the callback has not
  ended, and the step leaves the state as it is.

  If the database rejects one of its queries, the transaction is failed and the promise
  of that query in \<open>#pendingQueries\<close> is rejected. The only reader of
  \<open>#pendingQueries\<close> is the \<open>Promise.all\<close> of the commit. When the commit has been
  processed that reader is there, the transaction is rolled back and the error is
  settled. When the commit has not arrived, nothing awaits the rejected promise, and the
  commit that arrives later is dropped because the transaction has failed: the rejection
  stays unhandled, and the process ends before the rollback has returned and the
  \<open>catch\<close> of the callback has run.
\<close>

definition run_transaction ::
  "('r, 'rows) env \<Rightarrow> ('r, 'rows) MessageProcessor \<Rightarrow> nat \<Rightarrow> job list
     \<Rightarrow> ('r, 'rows) MessageProcessor" where
  "run_transaction env s k rest =
     (let t = processors s ! k in
      case failure s of
        Some f \<Rightarrow>
          (update_processor s k
             (\<lambda>t. tx_fail (t\<lparr>tx := Rejected (PrecedingTransactionError f)\<rparr>)
                     (PrecedingTransactionError f)))
          \<lparr>txSerializer := rest\<rparr>
      | None \<Rightarrow>
          (case tx_failure t of
             Some e \<Rightarrow>
               settle ((update_processor s k (\<lambda>t. t\<lparr>tx := Resolved\<rparr>))\<lparr>txSerializer := rest\<rparr>)
                 (commitLsn t) e
           | None \<Rightarrow>
               (case exec_all env (pending t) (replica s) of
                  Inl (Threw e) \<Rightarrow>
                    settle ((update_processor s k (\<lambda>t. tx_fail (t\<lparr>tx := Resolved\<rparr>) e))
                              \<lparr>txSerializer := rest\<rparr>)
                      (commitLsn t) e
                | Inl (QueryRejected e) \<Rightarrow>
                    (if committed t
                     then settle ((update_processor s k (\<lambda>t. tx_fail (t\<lparr>tx := Resolved\<rparr>) e))
                                    \<lparr>txSerializer := rest\<rparr>)
                            (commitLsn t) e
                     else (update_processor s k (\<lambda>t. tx_fail (t\<lparr>tx := Resolved\<rparr>) e))
                            \<lparr>exited := True\<rparr>)
                | Inr db' \<Rightarrow>
                    (if committed t
                     then (update_processor s k (\<lambda>t. t\<lparr>tx := Resolved, processed := Resolved\<rparr>))
                            \<lparr>txSerializer := rest, replica := db',
                             acknowledged := acknowledged s @ [commitLsn t]\<rparr>
                     else s))))"

text \<open>
  The beginning of the callback at the head of the queue when no transaction before it
  has failed: the database transaction begins and \<open>tx\<close> is resolved.
\<close>

definition lockBegin :: "('r, 'rows) MessageProcessor \<Rightarrow> ('r, 'rows) MessageProcessor" where
  "lockBegin s =
     (case txSerializer s of
        TxJob k # rest \<Rightarrow>
          (if failure s = None
           then update_processor s k (\<lambda>t. if tx t = Pending then t\<lparr>tx := Resolved\<rparr> else t)
           else s)
      | _ \<Rightarrow> s)"

definition lockRun :: "('r, 'rows) env \<Rightarrow> ('r, 'rows) MessageProcessor \<Rightarrow> ('r, 'rows) MessageProcessor" where
  "lockRun env s =
     (case txSerializer s of
        [] \<Rightarrow> s
      | FailJob err # rest \<Rightarrow> failInLock (s\<lparr>txSerializer := rest\<rparr>) err
      | TxJob k # rest \<Rightarrow> run_transaction env s k rest)"

text \<open>One event; none has an effect once the process has ended.\<close>

definition processor_step ::
  "('r, 'rows) env \<Rightarrow> ('r, 'rows) MessageProcessor \<Rightarrow> 'r event \<Rightarrow> ('r, 'rows) MessageProcessor" where
  "processor_step env s ev =
     (if exited s then s
      else case ev of
        Recv lsn message \<Rightarrow> processMessage env s message
      | Began \<Rightarrow> lockBegin s
      | LockRun \<Rightarrow> lockRun env s)"

definition new_MessageProcessor :: "'rows replica \<Rightarrow> ('r, 'rows) MessageProcessor" where
  "new_MessageProcessor db =
     \<lparr>failure = None, current = None, processors = [], txSerializer = [], replica = db,
      acknowledged = [], failService_calls = [], exited = False\<rparr>"

text \<open>
  What holds of every state the processor reaches: every transaction begins with the
  insert of its version into the transaction log, and every callback of a transaction on
  the lock's queue is that of a processor that exists.
\<close>

definition begins_with_TxLog :: "('r, 'rows) env \<Rightarrow> 'r TransactionProcessor \<Rightarrow> bool" where
  "begins_with_TxLog env t =
     (\<exists>sts. pending t = Inr (InsertTxLog (toLexiVersion env (commitLsn t))) # sts)"

definition processor_inv :: "('r, 'rows) env \<Rightarrow> ('r, 'rows) MessageProcessor \<Rightarrow> bool" where
  "processor_inv env s =
     ((\<forall>t \<in> set (processors s). begins_with_TxLog env t)
      \<and> (\<forall>k. TxJob k \<in> set (txSerializer s) \<longrightarrow> k < length (processors s)))"

text \<open>
  An example: a table is a list of numbers, a statement appends its number, and the
  statement 0 violates a constraint.
\<close>

definition counters :: "(nat, nat list) env" where
  "counters =
     \<lparr>exec_row = (\<lambda>n xs. if n = 0 then Inl (PostgresError ''23502'' ''public'' ''issues'')
                         else Inr (xs @ [n])),
      toLexiVersion = (\<lambda>lsn. lsn)\<rparr>"

text \<open>
  The replica of the example in which the transaction of version \<open>0/1\<close> has been
  applied, and the transactions \<open>0/1\<close>, \<open>0/2\<close> and \<open>0/3\<close> as they arrive from
  upstream; the second holds a message of a custom type, and \<open>failing\<close> is a
  transaction whose statement the database rejects.
\<close>

definition applied :: "nat list replica" where
  "applied = \<lparr>TxLog = [''0/1''], tables = [5]\<rparr>"

definition tx1 :: "nat event list" where
  "tx1 = [Recv ''0/0'' (Begin (Some ''0/1'')), Recv ''0/0'' (Data (Inr 5)), Recv ''0/1'' Commit]"

definition tx2 :: "nat event list" where
  "tx2 = [Recv ''0/1'' (Begin (Some ''0/2'')), Recv ''0/1'' (Data (Inr 6)), Recv ''0/2'' Commit]"

definition tx2_custom_type :: "nat event list" where
  "tx2_custom_type =
     [Recv ''0/1'' (Begin (Some ''0/2'')), Recv ''0/1'' (Type ''geometry''),
      Recv ''0/1'' (Data (Inr 6)), Recv ''0/2'' Commit]"

definition tx2_failing :: "nat event list" where
  "tx2_failing =
     [Recv ''0/1'' (Begin (Some ''0/2'')), Recv ''0/1'' (Data (Inr 0)), Recv ''0/2'' Commit]"

definition tx3 :: "nat event list" where
  "tx3 = [Recv ''0/2'' (Begin (Some ''0/3'')), Recv ''0/2'' (Data (Inr 7)), Recv ''0/3'' Commit]"

text \<open>
  \<open>replayed\<close>: the transaction \<open>0/1\<close> arrives again, whole, before the lock runs
  its callback. \<open>poisoned\<close>: \<open>0/1\<close> is committed, then \<open>0/2\<close> arrives, whose statement
  the database rejects, and \<open>0/3\<close> behind it, and the lock runs the callback of \<open>0/2\<close>.
\<close>

definition replayed :: "(nat, nat list) MessageProcessor" where
  "replayed = foldl (processor_step counters) (new_MessageProcessor applied) tx1"

definition poisoned :: "(nat, nat list) MessageProcessor" where
  "poisoned =
     foldl (processor_step counters) (new_MessageProcessor \<lparr>TxLog = [], tables = []\<rparr>)
       (tx1 @ [LockRun] @ tx2_failing @ tx3 @ [LockRun])"

section \<open>View syncer and CVR\<close>

text \<open>
  Modelled from the spec: the view syncer and the CVR (view-syncer.js, cvr.js) are not
  among the sources; only their tests are. This is the client view record of the
  specification's data model: its version, the clients with the queries they desire, the
  queries with the clients that desire them, the row records, and the row patches kept
  by version. Maps are association lists.
\<close>

record CVRVersion =
  stateVersion :: string
  minorVersion :: "nat option"

record ClientRecord =
  desiredQueryIDs :: "string list"
  client_patchVersion :: CVRVersion

record 'ast QueryRecord =
  ast :: 'ast
  desiredBy :: "(string \<times> CVRVersion) list"

record RowID =
  schema :: string
  table :: string
  rowKey :: "(string \<times> string) list"

record RowRecord =
  row_patchVersion :: string
  queriedColumns :: "(string \<times> string list) list"
  rowVersion :: string

datatype RowPatch = PutRow RowID "string list" string | DelRow RowID

record 'ast CVR =
  cvr_id :: string
  version :: CVRVersion
  clients :: "(string \<times> ClientRecord) list"
  queries :: "(string \<times> 'ast QueryRecord) list"
  rowRecords :: "(RowID \<times> RowRecord) list"
  rowPatches :: "(string \<times> RowPatch) list"

text \<open>
  Modelled from the spec: an entry of a desired-queries patch, \<open>{op: put|del, hash, ast?}\<close>,
  and the errors of the view syncer.
\<close>

datatype 'ast QueriesPatchOp = PutQuery string 'ast | DelQuery string

datatype vs_error = InvalidAST string | NotInGroup string | ProtocolError

text \<open>
  Modelled from the spec: \<open>putDesiredQueries(clientID, patch)\<close>. A change of the
  desired queries increments the minor version; a put records the query as desired by
  the client at that version, a del withdraws it. The specification rejects a query that
  does not compile; \<open>compiles\<close> is the query compiler's verdict on an AST, and the
  patch is applied entry by entry until an AST fails.
\<close>

definition next_minor :: "CVRVersion \<Rightarrow> CVRVersion" where
  "next_minor v =
     v\<lparr>minorVersion := Some (case minorVersion v of None \<Rightarrow> 1 | Some n \<Rightarrow> Suc n)\<rparr>"

definition client_of :: "'ast CVR \<Rightarrow> string \<Rightarrow> CVRVersion \<Rightarrow> ClientRecord" where
  "client_of cvr client v =
     (case map_of (clients cvr) client of
        Some c \<Rightarrow> c
      | None \<Rightarrow> \<lparr>desiredQueryIDs = [], client_patchVersion = v\<rparr>)"

definition put_op :: "'ast CVR \<Rightarrow> string \<Rightarrow> CVRVersion \<Rightarrow> 'ast QueriesPatchOp \<Rightarrow> 'ast CVR" where
  "put_op cvr client v op' =
     (let c = client_of cvr client v in
      case op' of
        PutQuery hash a \<Rightarrow>
          cvr\<lparr>clients := AList.update client
                 (c\<lparr>desiredQueryIDs := List.insert hash (desiredQueryIDs c)\<rparr>) (clients cvr),
              queries := AList.update hash
                 \<lparr>ast = a,
                  desiredBy = AList.update client v
                    (case map_of (queries cvr) hash of None \<Rightarrow> [] | Some q \<Rightarrow> desiredBy q)\<rparr>
                 (queries cvr)\<rparr>
      | DelQuery hash \<Rightarrow>
          cvr\<lparr>clients := AList.update client
                 (c\<lparr>desiredQueryIDs := removeAll hash (desiredQueryIDs c)\<rparr>) (clients cvr),
              queries :=
                 (case map_of (queries cvr) hash of
                    None \<Rightarrow> queries cvr
                  | Some q \<Rightarrow>
                      AList.update hash (q\<lparr>desiredBy := AList.delete client (desiredBy q)\<rparr>)
                        (queries cvr))\<rparr>)"

fun apply_ops ::
  "('ast \<Rightarrow> bool) \<Rightarrow> 'ast CVR \<Rightarrow> string \<Rightarrow> CVRVersion \<Rightarrow> 'ast QueriesPatchOp list
     \<Rightarrow> vs_error + 'ast CVR" where
  "apply_ops compiles cvr client v [] = Inr cvr"
| "apply_ops compiles cvr client v (op' # ops) =
     (case op' of
        PutQuery hash a \<Rightarrow>
          (if compiles a then apply_ops compiles (put_op cvr client v op') client v ops
           else Inl (InvalidAST hash))
      | DelQuery hash \<Rightarrow> apply_ops compiles (put_op cvr client v op') client v ops)"

definition putDesiredQueries ::
  "('ast \<Rightarrow> bool) \<Rightarrow> 'ast CVR \<Rightarrow> string \<Rightarrow> 'ast QueriesPatchOp list \<Rightarrow> vs_error + 'ast CVR" where
  "putDesiredQueries compiles cvr client patch =
     (let v = next_minor (version cvr) in
      apply_ops compiles (cvr\<lparr>version := v\<rparr>) client v patch)"

text \<open>
  Modelled from the spec: the view syncer owns one CVR and knows the current \<open>wsID\<close> of
  each client. \<open>may_join\<close> is the validation that a client may join the group.
\<close>

record SyncContext =
  clientID :: string
  wsID :: string
  baseCookie :: "string option"

record 'ast ViewSyncer =
  view_cvr :: "'ast CVR"
  connections :: "(string \<times> string) list"

record 'ast vs_env =
  compiles :: "'ast \<Rightarrow> bool"
  may_join :: "string \<Rightarrow> bool"

text \<open>
  Modelled from the spec: \<open>initConnection\<close> validates that the client may join the
  group, applies the patch, rejects without mutating the CVR if an AST fails to compile,
  and supersedes any prior \<open>wsID\<close> of the client.
\<close>

definition vs_initConnection ::
  "'ast vs_env \<Rightarrow> 'ast ViewSyncer \<Rightarrow> SyncContext \<Rightarrow> 'ast QueriesPatchOp list
     \<Rightarrow> (vs_error + unit) \<times> 'ast ViewSyncer" where
  "vs_initConnection env vs ctx patch =
     (if \<not> may_join env (clientID ctx) then (Inl (NotInGroup (clientID ctx)), vs)
      else case putDesiredQueries (compiles env) (view_cvr vs) (clientID ctx) patch of
        Inl e \<Rightarrow> (Inl e, vs)
      | Inr cvr' \<Rightarrow>
          (Inr (), vs\<lparr>view_cvr := cvr',
                      connections := AList.update (clientID ctx) (wsID ctx) (connections vs)\<rparr>))"

text \<open>
  Modelled from the spec: \<open>changeDesiredQueries\<close> ignores a message from a superseded
  \<open>wsID\<close>, and otherwise applies the patch; bad ASTs are rejected and leave the CVR
  unmodified.
\<close>

definition vs_changeDesiredQueries ::
  "'ast vs_env \<Rightarrow> 'ast ViewSyncer \<Rightarrow> SyncContext \<Rightarrow> 'ast QueriesPatchOp list
     \<Rightarrow> (vs_error + unit) \<times> 'ast ViewSyncer" where
  "vs_changeDesiredQueries env vs ctx patch =
     (if map_of (connections vs) (clientID ctx) \<noteq> Some (wsID ctx) then (Inr (), vs)
      else case putDesiredQueries (compiles env) (view_cvr vs) (clientID ctx) patch of
        Inl e \<Rightarrow> (Inl e, vs)
      | Inr cvr' \<Rightarrow> (Inr (), vs\<lparr>view_cvr := cvr'\<rparr>))"

text \<open>
  An entry of a patch whose AST does not compile.
\<close>

definition bad_ast :: "('ast \<Rightarrow> bool) \<Rightarrow> 'ast QueriesPatchOp \<Rightarrow> bool" where
  "bad_ast ck op' = (case op' of PutQuery hash a \<Rightarrow> \<not> ck a | DelQuery hash \<Rightarrow> False)"

text \<open>
  Modelled from the spec: a row of a query's result at a commit: which row, its
  \<open>_0_version\<close>, the selected columns with their values, and the query.
\<close>

record ResultRow =
  rid :: RowID
  row_version :: string
  contents :: "(string \<times> jsvalue) list"
  by_query :: string

text \<open>
  Modelled from the spec: the representable-integer range of the wire format. The test
  of the repository sends 9007199254740991 and its negative and fails on
  10000000000000000, so the range is that of the safe integers, up to \<open>2^53 - 1\<close> in
  absolute value. A number is looked for wherever a value holds one: in the elements of an
  array and in the values of the keys of an object, at any depth.
\<close>

fun representable :: "jsvalue \<Rightarrow> bool" where
  "representable (JNum q) = (\<bar>q\<bar> \<le> 2 ^ 53 - 1)"
| "representable (JArr xs) = list_all representable xs"
| "representable (JObj kvs) = list_all representable (map snd kvs)"
| "representable v = True"

definition sendable :: "ResultRow \<Rightarrow> bool" where
  "sendable r = list_all (\<lambda>cv. representable (snd cv)) (contents r)"

text \<open>
  Modelled from the spec: \<open>reconcileRows\<close>. Given the current rows of every query, a
  row whose covered columns or whose version differ from its record (or that has no
  record) gets a put patch with its columns and version and a record at the new version;
  a recorded row that is in no result gets a del patch and loses its record; a row whose
  record already says the same is left alone.
\<close>

definition add_column :: "string \<Rightarrow> string \<Rightarrow> (string \<times> string list) list \<Rightarrow> (string \<times> string list) list" where
  "add_column q c cols =
     AList.update c (List.insert q (case map_of cols c of None \<Rightarrow> [] | Some qs \<Rightarrow> qs)) cols"

definition columns_of :: "ResultRow list \<Rightarrow> RowID \<Rightarrow> (string \<times> string list) list" where
  "columns_of results r =
     foldl (\<lambda>cols x. if rid x = r then foldr (add_column (by_query x)) (map fst (contents x)) cols
                      else cols) [] results"

definition version_of :: "ResultRow list \<Rightarrow> RowID \<Rightarrow> string" where
  "version_of results r =
     (case filter (\<lambda>x. rid x = r) results of [] \<Rightarrow> [] | x # xs \<Rightarrow> row_version x)"

definition row_ids :: "ResultRow list \<Rightarrow> RowID list" where
  "row_ids results = remdups (map rid results)"

definition unchanged :: "'ast CVR \<Rightarrow> ResultRow list \<Rightarrow> RowID \<Rightarrow> bool" where
  "unchanged cvr results r =
     (case map_of (rowRecords cvr) r of
        None \<Rightarrow> False
      | Some old \<Rightarrow> queriedColumns old = columns_of results r
                   \<and> rowVersion old = version_of results r)"

definition reconcileRows ::
  "'ast CVR \<Rightarrow> string \<Rightarrow> ResultRow list \<Rightarrow> RowPatch list \<times> (RowID \<times> RowRecord) list" where
  "reconcileRows cvr v results =
     (let ids = row_ids results;
          changed = filter (\<lambda>r. \<not> unchanged cvr results r) ids;
          removed = filter (\<lambda>r. r \<notin> set ids) (map fst (rowRecords cvr));
          puts = map (\<lambda>r. PutRow r (map fst (columns_of results r)) (version_of results r)) changed;
          dels = map DelRow removed;
          kept = filter (\<lambda>rr. fst rr \<in> set ids \<and> fst rr \<notin> set changed) (rowRecords cvr);
          new = map (\<lambda>r. (r, \<lparr>row_patchVersion = v, queriedColumns = columns_of results r,
                                rowVersion = version_of results r\<rparr>)) changed
      in (puts @ dels, kept @ new))"

text \<open>
  Modelled from the spec: \<open>advanceVersion\<close> sets the state version and clears the
  pending minor version.
\<close>

definition advanceVersion :: "'ast CVR \<Rightarrow> string \<Rightarrow> 'ast CVR" where
  "advanceVersion cvr v = cvr\<lparr>version := \<lparr>stateVersion = v, minorVersion = None\<rparr>\<rparr>"

text \<open>
  Modelled from the spec: the poke of a commit, \<open>pokeStart\<close> with the CVR's version as
  base cookie, one \<open>pokePart\<close> with the entities patch (the optional parts of a poke
  are left out), and \<open>pokeEnd\<close>.
\<close>

datatype EntityPatch =
    PutEntity string "(string \<times> string) list" "(string \<times> jsvalue) list"
  | DelEntity string "(string \<times> string) list"

datatype Poke =
    PokeStart string CVRVersion string
  | PokePart string "EntityPatch list"
  | PokeEnd string

definition value_of :: "ResultRow list \<Rightarrow> RowID \<Rightarrow> (string \<times> jsvalue) list" where
  "value_of results r =
     foldl (\<lambda>acc x. if rid x = r then foldr (\<lambda>cv. AList.update (fst cv) (snd cv)) (contents x) acc
                     else acc) [] results"

definition entity_patch :: "ResultRow list \<Rightarrow> RowPatch \<Rightarrow> EntityPatch" where
  "entity_patch results p =
     (case p of
        PutRow r cols rv \<Rightarrow> PutEntity (table r) (rowKey r) (value_of results r)
      | DelRow r \<Rightarrow> DelEntity (table r) (rowKey r))"

text \<open>
  Modelled from the spec: one round of the main loop for the committed version \<open>v\<close>:
  the rows are reconciled with the CVR, the poke is produced, the CVR advances to \<open>v\<close>.
  A numeric value outside the representable range makes the poke fail with a protocol
  error, and the CVR advances all the same.
\<close>

definition process_commit ::
  "'ast CVR \<Rightarrow> string \<Rightarrow> ResultRow list \<Rightarrow> 'ast CVR \<times> (vs_error + Poke list)" where
  "process_commit cvr v results =
     (case reconcileRows cvr v results of
        (patches, records) \<Rightarrow>
          (advanceVersion
             (cvr\<lparr>rowRecords := records,
                  rowPatches := rowPatches cvr @ map (Pair v) patches\<rparr>) v,
           if list_all sendable results
           then Inr [PokeStart v (version cvr) v,
                     PokePart v (map (entity_patch results) patches),
                     PokeEnd v]
           else Inl ProtocolError))"

text \<open>
  The same rows with every value that cannot be sent replaced by null: what the commit
  would be if its values could all be sent.
\<close>

fun redact_value :: "jsvalue \<Rightarrow> jsvalue" where
  "redact_value v = (if representable v then v else JNull)"

definition redact :: "ResultRow \<Rightarrow> ResultRow" where
  "redact r = r\<lparr>contents := map (\<lambda>cv. (fst cv, redact_value (snd cv))) (contents r)\<rparr>"

text \<open>
  The example of the repository's test: the tables \<open>issues\<close> and \<open>users\<close>, a query on
  a column that does not exist, the client \<open>foo\<close> connected on \<open>ws1\<close> with one
  query, and a result in which one value is too large to be sent. A query compiles when
  its table and its columns exist.
\<close>

record AST =
  ast_table :: string
  ast_select :: "string list"

definition test_schema :: "(string \<times> string list) list" where
  "test_schema =
     [(''issues'', [''id'', ''owner_id'', ''parent_id'', ''big'', ''title'']),
      (''users'', [''id'', ''name''])]"

definition test_env :: "AST vs_env" where
  "test_env =
     \<lparr>compiles = (\<lambda>a. case map_of test_schema (ast_table a) of
                         None \<Rightarrow> False
                       | Some cols \<Rightarrow> list_all (\<lambda>c. c \<in> set cols) (ast_select a)),
      may_join = (\<lambda>client. True)\<rparr>"

definition ISSUES_TITLE_QUERY :: AST where
  "ISSUES_TITLE_QUERY = \<lparr>ast_table = ''issues'', ast_select = [''id'', ''title'', ''big'']\<rparr>"

definition INVALID_QUERY :: AST where
  "INVALID_QUERY = \<lparr>ast_table = ''users'', ast_select = [''non_existent_column'']\<rparr>"

definition SYNC_CONTEXT :: SyncContext where
  "SYNC_CONTEXT = \<lparr>clientID = ''foo'', wsID = ''ws1'', baseCookie = None\<rparr>"

text \<open>The same client on the connection that \<open>ws1\<close> has superseded.\<close>

definition SUPERSEDED_CONTEXT :: SyncContext where
  "SUPERSEDED_CONTEXT = \<lparr>clientID = ''foo'', wsID = ''ws0'', baseCookie = None\<rparr>"

definition connected :: "AST ViewSyncer" where
  "connected =
     \<lparr>view_cvr =
        \<lparr>cvr_id = ''9876'',
         version = \<lparr>stateVersion = ''00'', minorVersion = Some 1\<rparr>,
         clients = [(''foo'', \<lparr>desiredQueryIDs = [''query-hash1''],
                              client_patchVersion = \<lparr>stateVersion = ''00'', minorVersion = Some 1\<rparr>\<rparr>)],
         queries = [(''query-hash1'',
                     \<lparr>ast = ISSUES_TITLE_QUERY,
                      desiredBy = [(''foo'', \<lparr>stateVersion = ''00'', minorVersion = Some 1\<rparr>)]\<rparr>)],
         rowRecords = [], rowPatches = []\<rparr>,
      connections = [(''foo'', ''ws1'')]\<rparr>"

definition issue :: "string \<Rightarrow> RowID" where
  "issue k = \<lparr>schema = ''public'', table = ''issues'', rowKey = [(''id'', k)]\<rparr>"

definition unsafe_results :: "ResultRow list" where
  "unsafe_results =
     [\<lparr>rid = issue ''1'', row_version = ''1a0'',
       contents = [(''id'', JStr (js ''1'')), (''big'', JNum 9007199254740991)],
       by_query = ''query-hash1''\<rparr>,
      \<lparr>rid = issue ''4'', row_version = ''1cd'',
       contents = [(''id'', JStr (js ''4'')), (''big'', JNum 10000000000000000)],
       by_query = ''query-hash1''\<rparr>]"

text \<open>A result whose number beyond the range sits in an array inside an object.\<close>

definition nested_unsafe_results :: "ResultRow list" where
  "nested_unsafe_results =
     [\<lparr>rid = issue ''5'', row_version = ''1ef'',
       contents = [(''id'', JStr (js ''5'')),
                   (''big'', JObj [(js ''n'', JArr [JNum 1, JNum 10000000000000000])])],
       by_query = ''query-hash1''\<rparr>]"

chapter \<open>Theorems\<close>

section \<open>Connection\<close>

lemma forwarded_forwardMutations_accepting:
  "(\<And>m. processMutation sv m = Inr None) \<Longrightarrow>
   forwardMutations sv c ms = (c\<lparr>forwarded := forwarded c @ ms\<rparr>, None)"
  by (induction ms arbitrary: c) simp_all

lemma push_forwards_whatever_the_group:
  assumes "\<not> closed c" and "\<And>m. processMutation sv m = Inr None"
  shows "forwarded (handleMessage sv c (Wellformed (Push cg ms))) = forwarded c @ ms"
  using assms
  by (simp add: handleMessage_def dispatch_def forwarded_forwardMutations_accepting
      closeWithError_def close_def sendError_def send_def)

text \<open>
  C1 (the code departs from the claim). A push whose \<open>clientGroupID\<close> is not the
  connection's is answered with \<open>InvalidPush\<close> and the connection is closed, as the
  claim says; but the mutations of that message are handed to the mutation service all
  the same, because the handler does not leave the \<open>push\<close> case after closing. Here a
  connection of group \<open>g1\<close> receives a push for group \<open>g2\<close> with the mutations 7 and 8.
\<close>

theorem push_mismatch_still_forwards:
  "handleMessage accepting (new_Connection ''g1'') (Wellformed (Push ''g2'' [7, 8])) =
     \<lparr>clientGroupID = ''g1'', closed = True, ws_closed = True,
      sent = [Connected, ErrorMessage InvalidPush (mismatch_text ''g2'' ''g1'')],
      forwarded = [7, 8], viewSyncer_calls = [], outboundStream = None, cancelled = [],
      onClose_calls = 1\<rparr>"
  by (simp add: handleMessage_def dispatch_def new_Connection_def accepting_def
      closeWithError_def close_def sendError_def send_def)

section \<open>LIKE patterns\<close>

subsection \<open>What patternToRegExp builds\<close>

lemma patternToRegExp_loop_eq:
  "patternToRegExp_loop src acc =
     (if trailing_escape src then Inl TrailingEscape else Inr (acc @ like_source src))"
  by (induction src acc rule: patternToRegExp_loop.induct) (simp_all split: list.splits)

lemma special_iff_syntax: "specialCharsRe_test c = isSyntaxCharacter c"
  by (auto simp: specialCharsRe_test_def isSyntaxCharacter_def js_def)

lemma parse_quantifier_no_star:
  "no_star tail \<Longrightarrow> parse_quantifier a tail = map_option (Cons (Atom a)) (parse_pattern tail)"
  by (cases tail) (simp_all add: no_star_def)

lemma syntax_chars:
  "isSyntaxCharacter 0x5C" "isSyntaxCharacter 0x2E" "isSyntaxCharacter 0x5E"
  "isSyntaxCharacter 0x24" "isSyntaxCharacter 0x2A"
  by (simp_all add: isSyntaxCharacter_def js_def)

lemma parse_literal:
  assumes "no_star tail"
  shows "parse_pattern ((if specialCharsRe_test d then [0x5C] else []) @ [d] @ tail) =
           map_option (Cons (Atom (Chr d))) (parse_pattern tail)"
proof (cases "isSyntaxCharacter d")
  case True
  then show ?thesis
    using assms by (simp add: special_iff_syntax parse_quantifier_no_star)
next
  case False
  then have "d \<noteq> 0x5E" "d \<noteq> 0x24" "d \<noteq> 0x2E" "d \<noteq> 0x5C"
    using syntax_chars by auto
  with False show ?thesis
    using assms by (simp add: special_iff_syntax parse_quantifier_no_star)
qed

lemma no_star_literal:
  "no_star ((if specialCharsRe_test d then [0x5C] else []) @ [d] @ tail)"
  using syntax_chars(5) by (auto simp: no_star_def special_iff_syntax)

text \<open>
  The text the loop writes is read back by the parser as the terms of the pattern,
  whatever follows it, as long as what follows does not begin with a star.
\<close>

lemma parse_like_source:
  "\<not> trailing_escape src \<Longrightarrow> no_star tail \<Longrightarrow>
   parse_pattern (like_source src @ tail) =
     map_option (\<lambda>ts. like_terms src @ ts) (parse_pattern tail)
   \<and> no_star (like_source src @ tail)"
proof (induction src rule: like_source.induct)
  case 1
  then show ?case by (simp add: option.map_ident)
next
  case (2 c rest)
  show ?case
  proof (cases "c = 0x25")
    case True
    with 2 show ?thesis
      by (simp add: js_def no_star_def option.map_comp comp_def)
  next
    case n1: False
    show ?thesis
    proof (cases "c = 0x5F")
      case True
      with 2 n1 show ?thesis
        by (simp add: js_def parse_quantifier_no_star option.map_comp comp_def)
           (simp add: no_star_def)
    next
      case n2: False
      show ?thesis
      proof (cases "c = 0x5C")
        case True
        with 2(5) obtain d rest' where r: "rest = d # rest'" and nt: "\<not> trailing_escape rest'"
          by (cases rest) auto
        from 2(3)[OF n1 n2 True r nt 2(6)]
        have ih: "parse_pattern (like_source rest' @ tail) =
                    map_option (\<lambda>ts. like_terms rest' @ ts) (parse_pattern tail)"
          and ns: "no_star (like_source rest' @ tail)" by auto
        show ?thesis
          using True n1 n2 r parse_literal[OF ns, of d] ih
            no_star_literal[of d "like_source rest' @ tail"]
          by (simp add: option.map_comp comp_def)
      next
        case n3: False
        from 2(5) n3 have nt: "\<not> trailing_escape rest" by simp
        from 2(4)[OF n1 n2 n3 nt 2(6)]
        have ih: "parse_pattern (like_source rest @ tail) =
                    map_option (\<lambda>ts. like_terms rest @ ts) (parse_pattern tail)"
          and ns: "no_star (like_source rest @ tail)" by auto
        show ?thesis
          using n1 n2 n3 parse_literal[OF ns, of c] ih
            no_star_literal[of c "like_source rest @ tail"]
          by (simp add: option.map_comp comp_def)
      qed
    qed
  qed
qed

text \<open>
  \<open>patternToRegExp\<close> throws exactly on a pattern that ends in a lone backslash, and
  otherwise returns the anchored expression of the pattern's terms: the constructor of
  the runtime never rejects the text it is given.
\<close>

lemma patternToRegExp_eq:
  "patternToRegExp src flags =
     (if trailing_escape src then Inl TrailingEscape
      else Inr \<lparr>source = AssertStart # like_terms src @ [AssertEnd],
                ignoreCase = (flags = FlagI)\<rparr>)"
proof (cases "trailing_escape src")
  case True
  then show ?thesis by (simp add: patternToRegExp_def patternToRegExp_loop_eq)
next
  case False
  have "no_star (js ''$'')" by (simp add: no_star_def js_def)
  from parse_like_source[OF False this]
  have "parse_pattern (like_source src @ js ''$'') = Some (like_terms src @ [AssertEnd])"
    by (simp add: js_def)
  with False show ?thesis
    by (simp add: patternToRegExp_def patternToRegExp_loop_eq new_RegExp_def js_def)
qed

subsection \<open>What the built expression matches\<close>

lemma atom_matches_simps [simp]:
  "atom_matches rt ic Dot c = (\<not> isLineTerminator c)"
  "atom_matches rt ic (Chr d) c = unit_equal rt ic c d"
  by (simp_all add: atom_matches_def)

lemma search_not_at_start: "search rt ic (AssertStart # ts) False s = False"
  by (induction s) simp_all

lemma search_anchored: "search rt ic (AssertStart # ts) True s = matches_at rt ic ts True s"
  by (cases s) (simp_all add: search_not_at_start)

lemma matches_at_start_irrelevant:
  "AssertStart \<notin> set ts \<Longrightarrow> matches_at rt ic ts start s = matches_at rt ic ts False s"
  by (induction rt ic ts start s rule: matches_at.induct) auto

lemma like_terms_no_AssertStart: "AssertStart \<notin> set (like_terms p @ [AssertEnd])"
  by (induction p rule: like_terms.induct) (auto split: list.splits)

lemma matches_like_terms_start:
  "matches_at rt ic (like_terms p @ [AssertEnd]) start s =
   matches_at rt ic (like_terms p @ [AssertEnd]) False s"
  using matches_at_start_irrelevant[OF like_terms_no_AssertStart] .

text \<open>
  On an input without line terminators the terms of a pattern match the whole input
  exactly when the specification's LIKE holds. The hypothesis is needed: the dot that
  stands for the underscore and the percent sign does not match a line terminator.
\<close>

lemma matches_like_terms:
  "\<not> trailing_escape p \<Longrightarrow> list_all (\<lambda>c. \<not> isLineTerminator c) s \<Longrightarrow>
   matches_at rt ic (like_terms p @ [AssertEnd]) False s = sql_like (unit_equal rt ic) p s"
proof (induction "unit_equal rt ic" p s rule: sql_like.induct)
  case (1 s)
  then show ?case by auto
next
  case (2 p ps s)
  show ?case
  proof (cases "p = 0x25")
    case True
    show ?thesis
    proof (cases s)
      case Nil
      with True 2 show ?thesis by simp
    next
      case (Cons c s')
      with True 2 show ?thesis
        by (auto simp add: matches_like_terms_start[of rt ic ps True])
    qed
  next
    case n1: False
    show ?thesis
    proof (cases "p = 0x5F")
      case True
      with n1 2 show ?thesis by (cases s) simp_all
    next
      case n2: False
      show ?thesis
      proof (cases "p = 0x5C")
        case True
        with "2.prems"(1) obtain q qs where ps: "ps = q # qs" and nt: "\<not> trailing_escape qs"
          by (cases ps) auto
        show ?thesis
        proof (cases s)
          case Nil
          with True n1 n2 ps show ?thesis by simp
        next
          case (Cons c s')
          with True n1 n2 ps nt "2.hyps"(4)[OF n1 n2 True ps Cons nt] "2.prems"(2)
          show ?thesis by simp
        qed
      next
        case n3: False
        with n1 n2 2 show ?thesis by (cases s) simp_all
      qed
    qed
  qed
qed

lemma trailing_escape_has_wildcard: "trailing_escape p \<Longrightarrow> has_wildcard p"
  by (induction p rule: trailing_escape.induct)
     (auto simp: has_wildcard_def split: list.splits if_splits)

lemma like_terms_plain:
  "\<not> has_wildcard p \<Longrightarrow> like_terms p = map (\<lambda>c. Atom (Chr c)) p"
  by (induction p) (auto simp: has_wildcard_def)

lemma matches_plain:
  "matches_at rt ic (map (\<lambda>c. Atom (Chr c)) p @ [AssertEnd]) start s =
     list_all2 (unit_equal rt ic) s p"
proof (induction p arbitrary: s start)
  case Nil
  then show ?case by (cases s) auto
next
  case (Cons a p)
  then show ?case by (cases s) auto
qed

lemma unit_equal_case_sensitive: "unit_equal rt False = (=)"
  by (simp add: unit_equal_def fun_eq_iff)

lemma sql_like_plain: "\<not> has_wildcard p \<Longrightarrow> sql_like E p s = list_all2 E s p"
proof (induction p arbitrary: s)
  case Nil
  then show ?case by simp
next
  case (Cons a p)
  then show ?case by (cases s) (auto simp: has_wildcard_def)
qed

subsection \<open>The compiled predicate\<close>

lemma evalRegExp_trailing:
  "trailing_escape p \<Longrightarrow> evalRegExp rt p flags s = Inl TrailingEscape"
  by (simp add: evalRegExp_def patternToRegExp_eq)

lemma evalRegExp_plain:
  assumes "\<not> has_wildcard p"
  shows "evalRegExp rt p flags s = Inr (list_all2 (unit_equal rt (flags = FlagI)) s p)"
proof -
  from assms have "\<not> trailing_escape p"
    using trailing_escape_has_wildcard by blast
  then show ?thesis
    using assms
    by (simp add: evalRegExp_def patternToRegExp_eq RegExp_test_def search_anchored
        like_terms_plain matches_plain)
qed

lemma evalRegExp_sql_like:
  assumes "\<not> trailing_escape p" and "list_all (\<lambda>c. \<not> isLineTerminator c) s"
  shows "evalRegExp rt p flags s = Inr (sql_like (unit_equal rt (flags = FlagI)) p s)"
  using assms
  by (simp add: evalRegExp_def patternToRegExp_eq RegExp_test_def search_anchored
      matches_like_terms_start[of rt _ p True] matches_like_terms)

lemma evalLike_wildcard:
  "has_wildcard p \<Longrightarrow> evalLike rt p flags s = evalRegExp rt p flags s"
  by (auto simp: evalLike_def evalRegExp_def getLikeOp_def split: sum.splits)

lemma evalLike_plain:
  "\<not> has_wildcard p \<Longrightarrow>
   evalLike rt p flags s =
     Inr (if flags = FlagI then toLowerCase rt s = toLowerCase rt p else s = p)"
  by (simp add: evalLike_def getLikeOp_def Let_def)

text \<open>A pattern that ends in a lone backslash: compiling it throws, for LIKE and ILIKE.\<close>

lemma evalLike_trailing_escape:
  "trailing_escape p \<Longrightarrow> evalLike rt p flags s = Inl TrailingEscape"
  by (simp add: evalLike_wildcard trailing_escape_has_wildcard evalRegExp_trailing)

text \<open>
  For LIKE, on every input without line terminators, the compiled predicate is the
  specification's LIKE.
\<close>

lemma evalLike_agrees_without_line_terminators:
  assumes "\<not> trailing_escape p" and "list_all (\<lambda>c. \<not> isLineTerminator c) s"
  shows "evalLike rt p NoFlags s = Inr (sql_like (=) p s)"
proof (cases "has_wildcard p")
  case True
  then show ?thesis
    using assms by (simp add: evalLike_wildcard evalRegExp_sql_like unit_equal_case_sensitive)
next
  case False
  then show ?thesis
    by (simp add: evalLike_plain sql_like_plain list_all2_eq[symmetric])
qed

text \<open>
  For LIKE, the shortcut of \<open>getLikeOp\<close> for a pattern without underscore, percent
  sign and backslash is string equality, and it is what the general compilation of the
  same pattern computes, on every input.
\<close>

lemma fast_path_is_regex_path_case_sensitive:
  "\<not> has_wildcard p \<Longrightarrow>
   evalLike rt p NoFlags s = Inr (s = p) \<and> evalRegExp rt p NoFlags s = Inr (s = p)"
  by (simp add: evalLike_plain evalRegExp_plain unit_equal_case_sensitive list_all2_eq[symmetric])

subsection \<open>ILIKE on the Basic Latin block\<close>

lemma nat_fold_agree: "nat_lower m = nat_lower n \<longleftrightarrow> nat_upper m = nat_upper n"
  unfolding nat_lower_def nat_upper_def by (auto split: if_splits)

lemma unat_lower:
  fixes c :: jschar
  assumes "c < 128"
  shows "unat (unit_toLowerCase c) = nat_lower (unat c)"
proof -
  from assms have lt: "unat c < 128" by (simp add: word_less_nat_alt)
  have ne: "c \<noteq> 0x212A" using assms by auto
  have "unat (c + 0x20) = unat c + 32"
    using lt by (simp add: unat_word_ariths)
  with ne show ?thesis
    by (simp add: unit_toLowerCase_def nat_lower_def word_le_nat_alt)
qed

lemma unat_upper:
  fixes c :: jschar
  assumes "c < 128"
  shows "unat (unit_toUpperCase c) = nat_upper (unat c)"
proof -
  from assms have lt: "unat c < 128" by (simp add: word_less_nat_alt)
  have "unat (c - 0x20) = unat c - 32" if "0x61 \<le> c"
  proof -
    from that have "(0x20 :: jschar) \<le> c" by (simp add: word_le_nat_alt)
    then show ?thesis by (simp add: unat_sub)
  qed
  then show ?thesis
    by (auto simp add: unit_toUpperCase_def nat_upper_def word_le_nat_alt)
qed

lemma ascii_fold_agree:
  fixes c d :: jschar
  assumes "c < 128" and "d < 128"
  shows "unit_toLowerCase c = unit_toLowerCase d \<longleftrightarrow> unit_toUpperCase c = unit_toUpperCase d"
proof -
  have "unit_toLowerCase c = unit_toLowerCase d \<longleftrightarrow>
        unat (unit_toLowerCase c) = unat (unit_toLowerCase d)"
    by (simp add: word_unat_eq_iff)
  also have "\<dots> \<longleftrightarrow> nat_lower (unat c) = nat_lower (unat d)"
    using assms by (simp add: unat_lower)
  also have "\<dots> \<longleftrightarrow> nat_upper (unat c) = nat_upper (unat d)"
    by (rule nat_fold_agree)
  also have "\<dots> \<longleftrightarrow> unat (unit_toUpperCase c) = unat (unit_toUpperCase d)"
    using assms by (simp add: unat_upper)
  also have "\<dots> \<longleftrightarrow> unit_toUpperCase c = unit_toUpperCase d"
    by (simp add: word_unat_eq_iff)
  finally show ?thesis .
qed

lemma Canonicalize_basic_latin_ascii:
  "c < 128 \<Longrightarrow> Canonicalize basic_latin c = unit_toUpperCase c"
  by (auto simp add: Canonicalize_def basic_latin_def)

lemma map_eq_list_all2: "map f xs = map f ys \<longleftrightarrow> list_all2 (\<lambda>x y. f x = f y) xs ys"
proof (induction xs arbitrary: ys)
  case Nil
  then show ?case by auto
next
  case (Cons x xs)
  then show ?case by (cases ys) auto
qed

lemma list_all2_ascii:
  assumes "list_all (\<lambda>c. c < 128) s" and "list_all (\<lambda>c. c < 128) p"
  shows "list_all2 (\<lambda>c d. unit_toLowerCase c = unit_toLowerCase d) s p
     \<longleftrightarrow> list_all2 (unit_equal basic_latin True) s p"
  using assms
proof (induction s arbitrary: p)
  case Nil
  then show ?case by simp
next
  case (Cons c s)
  show ?case
  proof (cases p)
    case Nil
    then show ?thesis by simp
  next
    case (Cons d p')
    with Cons.prems Cons.IH[of p'] show ?thesis
      by (simp add: unit_equal_def Canonicalize_basic_latin_ascii ascii_fold_agree)
  qed
qed

text \<open>
  For ILIKE the shortcut and the general compilation agree on patterns and inputs of the
  Basic Latin block, where the table \<open>basic_latin\<close> is the runtime's.
\<close>

lemma ilike_fast_path_is_regex_path_ascii:
  assumes "\<not> has_wildcard p" and "list_all (\<lambda>c. c < 128) p" and "list_all (\<lambda>c. c < 128) s"
  shows "evalLike basic_latin p FlagI s = evalRegExp basic_latin p FlagI s"
  using assms list_all2_ascii[OF assms(3) assms(2)]
  by (simp add: evalLike_plain evalRegExp_plain basic_latin_def map_eq_list_all2)

subsection \<open>Where the code departs\<close>

text \<open>
  C3 (the code departs from the claim). The pattern of one underscore must match every
  string of one character. The compiled predicate does not match the string of one line
  feed: the underscore is compiled to a dot, and the expression is built without the
  flag that lets the dot match a line terminator. The second half of the claim holds
  (\<open>evalLike_trailing_escape\<close>), and so does the first on inputs without line
  terminators (\<open>evalLike_agrees_without_line_terminators\<close>).
\<close>

theorem like_underscore_misses_line_feed:
  "evalLike basic_latin (js ''_'') NoFlags [0x0A] = Inr False
   \<and> sql_like (=) (js ''_'') [0x0A]"
  by (simp add: evalLike_def getLikeOp_def has_wildcard_def js_def patternToRegExp_eq
      RegExp_test_def isLineTerminator_def)

text \<open>
  C10 (the code departs from the claim). For ILIKE the shortcut compares the lower-cased
  strings, while the general compilation compares code units through the upper-casing
  \<open>Canonicalize\<close> of the runtime. The two differ on the pattern \<open>k\<close> and the input of
  the one code unit U+212A (the Kelvin sign): its lower case is \<open>k\<close>, so the shortcut
  answers true; it is its own upper case, so the expression built from \<open>k\<close> does not
  match it. For LIKE the two agree on every input
  (\<open>fast_path_is_regex_path_case_sensitive\<close>), and for ILIKE on the Basic Latin block
  (\<open>ilike_fast_path_is_regex_path_ascii\<close>).
\<close>

theorem ilike_fast_path_differs_from_regex:
  "evalLike basic_latin (js ''k'') FlagI [0x212A] = Inr True \<and>
   evalRegExp basic_latin (js ''k'') FlagI [0x212A] = Inr False"
  by (simp add: evalLike_def evalRegExp_def getLikeOp_def has_wildcard_def js_def
      patternToRegExp_eq RegExp_test_def basic_latin_def unit_toLowerCase_def
      unit_toUpperCase_def Canonicalize_def unit_equal_def)

section \<open>Operators of simple conditions\<close>

text \<open>
  C8. With an empty list on the right, the predicate compiled for IN is false and the
  predicate compiled for SUPERSET is true, whatever the value on the left.
\<close>

theorem empty_in_false_superset_true:
  "evalOperator rt \<lparr>cond_op = OpIn, cond_field = f, cond_value = JArr []\<rparr> v = Inr (Some False)
   \<and> evalOperator rt \<lparr>cond_op = OpSuperset, cond_field = f, cond_value = JArr []\<rparr> v
       = Inr (Some True)"
  by (simp add: evalOperator_def getOperator_def on_array_def Array_includes_def)

theorem empty_in_false_superset_true_witness:
  "evalOperator basic_latin \<lparr>cond_op = OpIn, cond_field = ''id'', cond_value = JArr []\<rparr>
     (JNum 2) = Inr (Some False)
   \<and> evalOperator basic_latin \<lparr>cond_op = OpSuperset, cond_field = ''id'', cond_value = JArr []\<rparr>
     (JArr [JStr (js ''a'')]) = Inr (Some True)"
  using empty_in_false_superset_true[of basic_latin "''id''" "JNum 2"]
    empty_in_false_superset_true[of basic_latin "''id''" "JArr [JStr (js ''a'')]"]
  by simp

section \<open>Where-conditions\<close>

lemma branches_list_all2:
  "branches pr s cs = Inr bs \<Longrightarrow> list_all2 (\<lambda>c b. applyWhere pr s c = Inr b) cs bs"
  by (induction cs arbitrary: bs) (auto split: sum.splits)

lemma applyAnd_foldl_gen:
  "(case acc of Inl e \<Rightarrow> Inl e | Inr s \<Rightarrow> applyAnd pr s cs) =
     foldl (\<lambda>acc c. case acc of Inl e \<Rightarrow> Inl e | Inr s' \<Rightarrow> applyWhere pr s' c) acc cs"
proof (induction cs arbitrary: acc)
  case Nil
  then show ?case by (simp split: sum.splits)
next
  case (Cons c cs)
  show ?case
    using Cons.IH[of "case acc of Inl e \<Rightarrow> Inl e | Inr s' \<Rightarrow> applyWhere pr s' c"]
    by (cases acc) (simp_all split: sum.splits)
qed

lemma applyAnd_foldl:
  "applyAnd pr s cs =
     foldl (\<lambda>acc c. case acc of Inl e \<Rightarrow> Inl e | Inr s' \<Rightarrow> applyWhere pr s' c) (Inr s) cs"
  using applyAnd_foldl_gen[where acc = "Inr s"] by simp

lemma count_distinct_concat:
  "count (rows_of src (Distinct (Concat bs))) r =
     (if list_ex (\<lambda>b. r \<in># rows_of src b) bs then 1 else 0)"
  by (auto simp: list_ex_iff)

lemma at_most_once_filter: "at_most_once M \<Longrightarrow> at_most_once (filter_mset P M)"
  by (simp add: at_most_once_def)

lemma count_at_most_once:
  "at_most_once M \<Longrightarrow> count M r = (if r \<in># M then 1 else 0)"
  unfolding at_most_once_def
  by (metis count_eq_zero_iff le_antisym not_less_eq_eq le_zero_eq One_nat_def)

lemma list_ex_branches:
  assumes "list_all2 (\<lambda>c b. rows_of src b = filter_mset (sat c) M) cs bs"
  shows "list_ex (\<lambda>b. r \<in># rows_of src b) bs \<longleftrightarrow> r \<in># M \<and> list_ex (\<lambda>c. sat c r) cs"
  using assms by (induction cs bs rule: list_all2_induct) auto

text \<open>
  On a stream in which no row occurs twice, the compiled condition yields exactly the
  rows that satisfy it, each once.
\<close>

lemma where_semantics:
  fixes pr :: "'c \<Rightarrow> 'e + ('row \<Rightarrow> bool)" and src :: "'row multiset"
  shows
  "applyWhere pr s w = Inr g \<Longrightarrow> at_most_once (rows_of src s) \<Longrightarrow>
     rows_of src g = filter_mset (satisfies pr w) (rows_of src s)"
  and
  "applyAnd pr s cs = Inr g \<Longrightarrow> at_most_once (rows_of src s) \<Longrightarrow>
     rows_of src g = filter_mset (\<lambda>r. list_all (\<lambda>c. satisfies pr c r) cs) (rows_of src s)"
  and
  "branches pr s cs = Inr bs \<Longrightarrow> at_most_once (rows_of src s) \<Longrightarrow>
     list_all2 (\<lambda>c b. rows_of src b = filter_mset (satisfies pr c) (rows_of src s)) cs bs"
proof (induction pr s w and pr s cs and pr s cs arbitrary: g and g and bs
       rule: applyWhere_applyAnd_branches.induct)
  case (1 predicate stream conditions)
  then show ?case by simp
next
  case (2 predicate stream conditions)
  from "2.prems"(1) obtain bs where bs: "branches predicate stream conditions = Inr bs"
    and g: "g = Distinct (Concat bs)"
    by (auto split: sum.splits)
  let ?M = "rows_of src stream"
  from "2.IH"[OF bs "2.prems"(2)]
  have all2: "list_all2 (\<lambda>c b. rows_of src b = filter_mset (satisfies predicate c) ?M) conditions bs" .
  show ?case
  proof (rule multiset_eqI)
    fix r
    have "count (rows_of src g) r = (if list_ex (\<lambda>b. r \<in># rows_of src b) bs then 1 else 0)"
      unfolding g by (rule count_distinct_concat)
    also have "\<dots> = (if r \<in># ?M \<and> list_ex (\<lambda>c. satisfies predicate c r) conditions then 1 else 0)"
      using list_ex_branches[OF all2] by simp
    also have "\<dots> = count (filter_mset (satisfies predicate (Or conditions)) ?M) r"
      using count_at_most_once[OF "2.prems"(2), of r] by simp
    finally show "count (rows_of src g) r =
        count (filter_mset (satisfies predicate (Or conditions)) ?M) r" .
  qed
next
  case (3 predicate stream condition)
  then show ?case by (auto simp: applySimpleCondition_def split: sum.splits)
next
  case (4 predicate stream)
  then show ?case by simp
next
  case (5 predicate stream condition conditions)
  from "5.prems"(1) obtain s' where s': "applyWhere predicate stream condition = Inr s'"
    and g: "applyAnd predicate s' conditions = Inr g"
    by (auto split: sum.splits)
  from "5.IH"(1)[OF s' "5.prems"(2)]
  have r1: "rows_of src s' = filter_mset (satisfies predicate condition) (rows_of src stream)" .
  then have "at_most_once (rows_of src s')"
    using "5.prems"(2) by (simp add: at_most_once_filter)
  from "5.IH"(2)[OF s' g this] r1 show ?case
    by (simp add: filter_filter_mset conj_commute)
next
  case (6 predicate stream)
  then show ?case by simp
next
  case (7 predicate stream c conditions)
  from "7.prems"(1) obtain b bs' where b: "applyWhere predicate stream c = Inr b"
    and bs': "branches predicate stream conditions = Inr bs'" and eq: "bs = b # bs'"
    by (auto split: sum.splits)
  from "7.IH"(1)[OF b "7.prems"(2)] "7.IH"(2)[OF b bs' "7.prems"(2)] eq
  show ?case by simp
qed

text \<open>
  Whatever the stream holds, the compiled condition yields rows of the stream, and the
  rows it yields are those that satisfy the condition.
\<close>

lemma where_support:
  fixes pr :: "'c \<Rightarrow> 'e + ('row \<Rightarrow> bool)" and src :: "'row multiset"
  shows
  "applyWhere pr s w = Inr g \<Longrightarrow>
     set_mset (rows_of src g) = {r \<in> set_mset (rows_of src s). satisfies pr w r}"
  and
  "applyAnd pr s cs = Inr g \<Longrightarrow>
     set_mset (rows_of src g) =
       {r \<in> set_mset (rows_of src s). list_all (\<lambda>c. satisfies pr c r) cs}"
  and
  "branches pr s cs = Inr bs \<Longrightarrow>
     list_all2 (\<lambda>c b. set_mset (rows_of src b) =
                        {r \<in> set_mset (rows_of src s). satisfies pr c r}) cs bs"
proof (induction pr s w and pr s cs and pr s cs arbitrary: g and g and bs
       rule: applyWhere_applyAnd_branches.induct)
  case (1 predicate stream conditions)
  then show ?case by simp
next
  case (2 predicate stream conditions)
  from "2.prems"(1) obtain bs where bs: "branches predicate stream conditions = Inr bs"
    and g: "g = Distinct (Concat bs)"
    by (auto split: sum.splits)
  from "2.IH"[OF bs]
  have all2: "list_all2 (\<lambda>c b. set_mset (rows_of src b) =
        {r \<in> set_mset (rows_of src stream). satisfies predicate c r}) conditions bs" .
  have "set_mset (sum_list (map (rows_of src) bs)) =
      {r \<in> set_mset (rows_of src stream). list_ex (\<lambda>c. satisfies predicate c r) conditions}"
    using all2 by (induction conditions bs rule: list_all2_induct) auto
  then show ?case unfolding g by simp
next
  case (3 predicate stream condition)
  then show ?case by (auto simp: applySimpleCondition_def split: sum.splits)
next
  case (4 predicate stream)
  then show ?case by simp
next
  case (5 predicate stream condition conditions)
  from "5.prems"(1) obtain s' where s': "applyWhere predicate stream condition = Inr s'"
    and g: "applyAnd predicate s' conditions = Inr g"
    by (auto split: sum.splits)
  from "5.IH"(1)[OF s'] "5.IH"(2)[OF s' g] show ?case by auto
next
  case (6 predicate stream)
  then show ?case by simp
next
  case (7 predicate stream c conditions)
  from "7.prems"(1) obtain b bs' where b: "applyWhere predicate stream c = Inr b"
    and bs': "branches predicate stream conditions = Inr bs'" and eq: "bs = b # bs'"
    by (auto split: sum.splits)
  from "7.IH"(1)[OF b] "7.IH"(2)[OF b bs'] eq
  show ?case by simp
qed

text \<open>
  A conjunction of simple conditions becomes their filters, one on top of the other, the
  first condition's filter innermost, on whatever stream it is given.
\<close>

lemma simple_conjuncts_stack:
  "map pr cs = map Inr ps \<Longrightarrow>
   applyAnd pr s (map Simple cs) = Inr (foldl (\<lambda>g p. Filter p g) s ps)"
proof (induction cs arbitrary: s ps)
  case Nil
  then show ?case by simp
next
  case (Cons c cs)
  then obtain p ps' where ps: "ps = p # ps'" and p: "pr c = Inr p"
    and rest: "map pr cs = map Inr ps'"
    by (cases ps) auto
  from Cons.IH[OF rest, of "Filter p s"] p show ?case
    by (simp add: ps applySimpleCondition_def)
qed

text \<open>
  C9. A conjunction of simple conditions is compiled to their filters stacked in
  sequence on the stream, and a disjunction to the distinct operator over the
  concatenation of its branches, one branch per disjunct, each the compilation of that
  disjunct on the same stream. In the output of the disjunction a row is there exactly
  once if it is in the stream and satisfies one disjunct or several, and not at all
  otherwise. For any condition, nested as it may be, the rows of the output are the rows
  of the stream that satisfy the condition; and on a stream without duplicates the output
  is exactly those rows, each once.
\<close>

theorem where_compilation:
  assumes "map predicate cs = map Inr ps"
    and "applyWhere predicate stream (Or conditions) = Inr g"
    and "applyWhere predicate stream w = Inr g'"
  shows "applyWhere predicate stream (And (map Simple cs)) =
           Inr (foldl (\<lambda>s p. Filter p s) stream ps)
     \<and> (\<exists>bs. g = Distinct (Concat bs)
            \<and> list_all2 (\<lambda>c b. applyWhere predicate stream c = Inr b) conditions bs)
     \<and> count (rows_of src g) r =
         (if r \<in># rows_of src stream \<and> list_ex (\<lambda>c. satisfies predicate c r) conditions
          then 1 else 0)
     \<and> set_mset (rows_of src g') =
         {r \<in> set_mset (rows_of src stream). satisfies predicate w r}
     \<and> (at_most_once (rows_of src stream) \<longrightarrow>
          rows_of src g' = filter_mset (satisfies predicate w) (rows_of src stream))"
proof -
  from assms(2) obtain bs where bs: "branches predicate stream conditions = Inr bs"
    and g: "g = Distinct (Concat bs)"
    by (auto split: sum.splits)
  have stack: "applyWhere predicate stream (And (map Simple cs)) =
           Inr (foldl (\<lambda>s p. Filter p s) stream ps)"
    using simple_conjuncts_stack[OF assms(1), of stream] by simp
  have shape: "\<exists>bs. g = Distinct (Concat bs)
            \<and> list_all2 (\<lambda>c b. applyWhere predicate stream c = Inr b) conditions bs"
    using g branches_list_all2[OF bs] by blast
  have sup: "set_mset (rows_of src g) =
      {r \<in> set_mset (rows_of src stream). satisfies predicate (Or conditions) r}"
    using where_support(1)[OF assms(2), of src] .
  have "count (rows_of src g) r = (if r \<in># rows_of src g then 1 else 0)"
    unfolding g by simp
  also have "\<dots> = (if r \<in># rows_of src stream
                         \<and> list_ex (\<lambda>c. satisfies predicate c r) conditions then 1 else 0)"
    using sup by simp
  finally have once: "count (rows_of src g) r =
         (if r \<in># rows_of src stream \<and> list_ex (\<lambda>c. satisfies predicate c r) conditions
          then 1 else 0)" .
  from stack shape once where_support(1)[OF assms(3), of src]
    where_semantics(1)[OF assms(3), of src]
  show ?thesis by blast
qed

text \<open>
  The conditions 0 (even) and 1 (below 5). Their conjunction is the filter of 1 on the
  filter of 0. The row 2 satisfies both and is twice in the source; the disjunction
  yields it once, and 8 and 3, which satisfy one disjunct each, once, and 7 not at all.
  The conjunction of 0 with the disjunction of 1 and 0 yields, of 2, 3, 7 and 8, the rows
  2 and 8.
\<close>

theorem where_compilation_witness:
  "map nat_predicate [0, 1] = map Inr [\<lambda>n. even n, \<lambda>n. n < 5]
   \<and> applyWhere nat_predicate Source (And [Simple 0, Simple 1]) =
       Inr (Filter (\<lambda>n. n < 5) (Filter (\<lambda>n. even n) Source))
   \<and> applyWhere nat_predicate Source (Or [Simple 0, Simple 1]) =
       Inr (Distinct (Concat [Filter (\<lambda>n. even n) Source, Filter (\<lambda>n. n < 5) Source]))
   \<and> count (rows_of {#2, 2, 3, 7, 8 :: nat#}
        (Distinct (Concat [Filter (\<lambda>n. even n) Source, Filter (\<lambda>n. n < 5) Source]))) 2 = 1
   \<and> applyWhere nat_predicate Source (And [Simple 0, Or [Simple 1, Simple 0]]) =
       Inr (Distinct (Concat [Filter (\<lambda>n. n < 5) (Filter (\<lambda>n. even n) Source),
                              Filter (\<lambda>n. even n) (Filter (\<lambda>n. even n) Source)]))
   \<and> at_most_once (rows_of {#2, 3, 7, 8 :: nat#} Source)
   \<and> rows_of {#2, 3, 7, 8 :: nat#}
         (Distinct (Concat [Filter (\<lambda>n. n < 5) (Filter (\<lambda>n. even n) Source),
                            Filter (\<lambda>n. even n) (Filter (\<lambda>n. even n) Source)])) = {#2, 8 :: nat#}"
proof -
  have h1: "map nat_predicate [0, 1] = map Inr [\<lambda>n. even n, \<lambda>n. n < 5]"
    by (simp add: nat_predicate_def)
  have h2: "applyWhere nat_predicate Source (Or [Simple 0, Simple 1]) =
       Inr (Distinct (Concat [Filter (\<lambda>n. even n) Source, Filter (\<lambda>n. n < 5) Source]))"
    by (simp add: nat_predicate_def applySimpleCondition_def)
  have h3: "applyWhere nat_predicate Source (And [Simple 0, Or [Simple 1, Simple 0]]) =
       Inr (Distinct (Concat [Filter (\<lambda>n. n < 5) (Filter (\<lambda>n. even n) Source),
                              Filter (\<lambda>n. even n) (Filter (\<lambda>n. even n) Source)]))"
    by (simp add: nat_predicate_def applySimpleCondition_def)
  have h4: "at_most_once (rows_of {#2, 3, 7, 8 :: nat#} Source)"
    by (simp add: at_most_once_def)
  have sat: "satisfies nat_predicate (And [Simple 0, Or [Simple 1, Simple 0]]) = (\<lambda>n. even n)"
    by (auto simp: nat_predicate_def fun_eq_iff)
  from where_compilation[OF h1 h2 h3, of "{#2, 2, 3, 7, 8 :: nat#}" 2]
    where_compilation[OF h1 h2 h3, of "{#2, 3, 7, 8 :: nat#}" 2] h1 h2 h3 h4 sat
  show ?thesis by (simp add: nat_predicate_def)
qed

section \<open>Outbound streams\<close>

lemma ack_frames_snoc:
  "ack_frames (evs @ [ev]) = ack_frames evs @ (case ev of AckFrame a \<Rightarrow> [a] | _ \<Rightarrow> [])"
  by (simp add: ack_frames_def)

lemma streamOut_inv_init: "streamOut_inv [] streamOut_init"
  by (simp add: streamOut_inv_def streamOut_init_def ack_frames_def dequeued_def)

lemma streamOut_inv_step:
  assumes "streamOut_inv evs s" and "length evs < 2 ^ 53"
  shows "streamOut_inv (evs @ [ev]) (streamOut_step s ev)"
proof (cases ev)
  case (SourceYields msg)
  show ?thesis
  proof (cases "phase s = AwaitingSource \<and> \<not> closer_closed s")
    case True
    from assms have n: "nextID s < 2 ^ 53" by (simp add: streamOut_inv_def)
    from True assms have o: "outcome s = None" by (auto simp: streamOut_inv_def)
    show ?thesis
    proof (cases "acks s")
      case Nil
      with True SourceYields assms n o show ?thesis
        by (auto simp: streamOut_inv_def streamOut_step_def Let_def increment_def dequeued_def
            ack_frames_snoc)
    next
      case (Cons a rest)
      with True SourceYields assms n o show ?thesis
        by (auto simp: streamOut_inv_def streamOut_step_def Let_def check_ack_def closer_close_def
            increment_def dequeued_def ack_frames_snoc ack_of_def)
    qed
  next
    case False
    with SourceYields assms show ?thesis
      by (auto simp: streamOut_inv_def streamOut_step_def ack_frames_snoc)
  qed
next
  case SourceDone
  with assms show ?thesis
    by (auto simp: streamOut_inv_def streamOut_step_def closer_close_def ack_frames_snoc
        dequeued_def split: option.splits outcome.splits phase.splits)
next
  case (AckFrame a)
  show ?thesis
  proof (cases "phase s")
    case AwaitingSource
    with AckFrame assms show ?thesis
      by (auto simp: streamOut_inv_def streamOut_step_def ack_frames_snoc dequeued_def
          split: option.splits outcome.splits)
  next
    case (AwaitingAck i)
    with assms have o: "outcome s = None" by (auto simp: streamOut_inv_def)
    from AwaitingAck AckFrame assms o show ?thesis
      by (auto simp: streamOut_inv_def streamOut_step_def check_ack_def closer_close_def
          ack_frames_snoc dequeued_def ack_of_def)
  next
    case Exited
    with AckFrame assms show ?thesis
      by (auto simp: streamOut_inv_def streamOut_step_def ack_frames_snoc dequeued_def
          split: option.splits outcome.splits)
  qed
next
  case BadFrame
  with assms show ?thesis
    by (auto simp: streamOut_inv_def streamOut_step_def closer_close_def ack_frames_snoc
        dequeued_def split: option.splits outcome.splits phase.splits)
next
  case SocketClosed
  with assms show ?thesis
    by (auto simp: streamOut_inv_def streamOut_step_def closer_close_def ack_frames_snoc
        dequeued_def split: option.splits outcome.splits phase.splits)
qed

lemma streamOut_inv_reachable:
  "length evs \<le> 2 ^ 53 \<Longrightarrow> streamOut_inv evs (streamOut evs)"
proof (induction evs rule: rev_induct)
  case Nil
  then show ?case by (simp add: streamOut_def streamOut_inv_init)
next
  case (snoc ev evs)
  then have "streamOut_inv evs (streamOut evs)" and "length evs < 2 ^ 53" by simp_all
  from streamOut_inv_step[OF this, of ev] show ?case by (simp add: streamOut_def)
qed

lemma closer_closed_step: "closer_closed s \<Longrightarrow> closer_closed (streamOut_step s ev)"
  by (cases ev; cases "phase s")
     (auto simp: streamOut_step_def check_ack_def closer_close_def Let_def split: list.splits)

lemma streamed_step_closed:
  "closer_closed s \<Longrightarrow> streamed (streamOut_step s ev) = streamed s"
  by (cases ev; cases "phase s")
     (auto simp: streamOut_step_def check_ack_def closer_close_def Let_def split: list.splits)

lemma streamed_closed:
  "closer_closed s \<Longrightarrow> streamed (foldl streamOut_step s evs) = streamed s"
proof (induction evs arbitrary: s)
  case Nil
  then show ?case by simp
next
  case (Cons ev evs)
  then show ?case
    using closer_closed_step[of s ev] streamed_step_closed[of s ev] by simp
qed

lemma streamOut_append: "streamOut (evs @ evs') = foldl streamOut_step (streamOut evs) evs'"
  by (simp add: streamOut_def)

lemma take_acks: "n \<le> m \<Longrightarrow> take n (map ack_of [1..<Suc m] @ xs) = map ack_of [1..<Suc n]"
  by (simp add: take_map take_upt del: upt_Suc)

lemma nth_acks: "1 \<le> i \<Longrightarrow> i \<le> m \<Longrightarrow> (map ack_of [1..<Suc m] @ xs) ! (i - 1) = ack_of i"
  by (auto simp: nth_append simp del: upt_Suc)

lemma ack_of_inj [simp]: "ack_of i = ack_of j \<longleftrightarrow> i = j"
  by (simp add: ack_of_def)

text \<open>
  The two moments at which an acknowledgement is checked: a frame arrives while the loop
  waits, or the frame is in the queue when the next message has been sent.
\<close>

lemma waiting_mismatch:
  assumes "phase s = AwaitingAck i" and "a \<noteq> ack_of i"
  shows "outcome (streamOut_step s (AckFrame a)) = Some (UnexpectedAck i a)
     \<and> closer_closed (streamOut_step s (AckFrame a))"
  using assms by (simp add: streamOut_step_def check_ack_def closer_close_def ack_of_def)

lemma queued_mismatch:
  assumes "phase s = AwaitingSource" and "\<not> closer_closed s" and "acks s = a # rest"
    and "a \<noteq> ack_of (increment (nextID s))"
  shows "outcome (streamOut_step s (SourceYields m)) =
           Some (UnexpectedAck (increment (nextID s)) a)
     \<and> closer_closed (streamOut_step s (SourceYields m))"
  using assms by (simp add: streamOut_step_def check_ack_def closer_close_def Let_def ack_of_def)

text \<open>
  Where the claim fails as it is stated: it has an acknowledgement whose number differs
  from the identifier sent last end the stream with an error. Here the message 1 has
  been sent and acknowledged and the acknowledgement 2 arrives, for a message that has
  not been sent: it is queued, the stream goes on without an error, and when the second
  message is sent the queued acknowledgement is taken for it.
\<close>

theorem early_ack_is_queued:
  "streamOut [SourceYields ''a'', AckFrame (Finite 1), AckFrame (Finite 2)] =
     \<lparr>nextID = 1, acks = [Finite 2], phase = AwaitingSource, streamed = [(''a'', 1)],
      closer_closed = False, outcome = None\<rparr>
   \<and> streamOut [SourceYields ''a'', AckFrame (Finite 1), AckFrame (Finite 2), SourceYields ''b''] =
     \<lparr>nextID = 2, acks = [], phase = AwaitingSource, streamed = [(''a'', 1), (''b'', 2)],
      closer_closed = False, outcome = None\<rparr>"
  by (simp add: streamOut_def streamOut_step_def streamOut_init_def check_ack_def increment_def
      Let_def)

text \<open>
  C7. After any sequence of at most \<open>2^53\<close> events: the messages sent carry the
  identifiers 1, 2, 3 and so on, in that order. Every acknowledgement received has been
  dequeued by the loop or waits in its queue, in the order of arrival, so that the
  acknowledgement dequeued for the message \<open>i\<close> is the \<open>i\<close>-th one received. If the
  message \<open>n + 1\<close> has been sent, the first \<open>n\<close> acknowledgements received are those
  of 1 to \<open>n\<close>. And once the message \<open>i\<close> has been sent and the \<open>i\<close>-th
  acknowledgement has been received, in either order, and is not that of \<open>i\<close>, the
  loop has been left with the error, the closer has closed, and nothing more is sent
  whatever follows.
\<close>

theorem stop_and_wait:
  assumes "length evs \<le> 2 ^ 53"
  shows "map snd (streamed (streamOut evs)) = [1..<Suc (nextID (streamOut evs))]
   \<and> ack_frames evs = dequeued (streamOut evs) @ acks (streamOut evs)
   \<and> (Suc n \<in> snd ` set (streamed (streamOut evs)) \<longrightarrow>
        take n (ack_frames evs) = map ack_of [1..<Suc n])
   \<and> (i \<in> snd ` set (streamed (streamOut evs)) \<and> i \<le> length (ack_frames evs)
        \<and> ack_frames evs ! (i - 1) \<noteq> ack_of i \<longrightarrow>
        outcome (streamOut evs) = Some (UnexpectedAck i (ack_frames evs ! (i - 1)))
        \<and> closer_closed (streamOut evs)
        \<and> streamed (streamOut (evs @ evs')) = streamed (streamOut evs))"
proof -
  let ?s = "streamOut evs"
  let ?A = "ack_frames evs"
  have inv: "streamOut_inv evs ?s" using assms by (rule streamOut_inv_reachable)
  have ids: "map snd (streamed ?s) = [1..<Suc (nextID ?s)]"
    using inv by (simp add: streamOut_inv_def)
  have queue: "?A = dequeued ?s @ acks ?s"
    using inv by (simp add: streamOut_inv_def)
  have sent_iff: "j \<in> snd ` set (streamed ?s) \<longleftrightarrow> 1 \<le> j \<and> j \<le> nextID ?s" for j
  proof -
    have "j \<in> snd ` set (streamed ?s) \<longleftrightarrow> j \<in> set (map snd (streamed ?s))" by simp
    also have "\<dots> \<longleftrightarrow> 1 \<le> j \<and> j \<le> nextID ?s" unfolding ids by auto
    finally show ?thesis .
  qed
  have acked: "take n ?A = map ack_of [1..<Suc n]" if sent: "Suc n \<in> snd ` set (streamed ?s)"
  proof -
    from sent have n: "Suc n \<le> nextID ?s" by (simp add: sent_iff)
    show ?thesis
    proof (cases "outcome ?s")
      case None
      show ?thesis
      proof (cases "phase ?s")
        case (AwaitingAck k)
        with inv have "k = nextID ?s" by (simp add: streamOut_inv_def)
        with n have "Suc n \<le> k" by simp
        then obtain m where m: "k = Suc m" and nm: "n \<le> m" by (cases k) auto
        have "?A = map ack_of [1..<Suc m] @ acks ?s"
          using queue None AwaitingAck m by (simp add: dequeued_def)
        with take_acks[OF nm] show ?thesis by simp
      next
        case AwaitingSource
        have "?A = map ack_of [1..<Suc (nextID ?s)] @ acks ?s"
          using queue None AwaitingSource by (simp add: dequeued_def)
        moreover have "n \<le> nextID ?s" using n by simp
        ultimately show ?thesis using take_acks by simp
      next
        case Exited
        with inv None show ?thesis by (simp add: streamOut_inv_def)
      qed
    next
      case (Some oc)
      show ?thesis
      proof (cases oc)
        case Completed
        have "?A = map ack_of [1..<Suc (nextID ?s)] @ acks ?s"
          using queue Some Completed inv by (simp add: dequeued_def streamOut_inv_def)
        moreover have "n \<le> nextID ?s" using n by simp
        ultimately show ?thesis using take_acks by simp
      next
        case (UnexpectedAck k a)
        with inv Some have "k = nextID ?s" by (simp add: streamOut_inv_def)
        with n have "Suc n \<le> k" by simp
        then obtain m where m: "k = Suc m" and nm: "n \<le> m" by (cases k) auto
        have "?A = map ack_of [1..<Suc m] @ (a # acks ?s)"
          using queue Some UnexpectedAck m by (simp add: dequeued_def)
        with take_acks[OF nm] show ?thesis by simp
      qed
    qed
  qed
  have mismatch: "outcome ?s = Some (UnexpectedAck i (?A ! (i - 1)))
        \<and> closer_closed ?s
        \<and> streamed (streamOut (evs @ evs')) = streamed ?s"
    if sent: "i \<in> snd ` set (streamed ?s)" and len: "i \<le> length ?A"
      and ne: "?A ! (i - 1) \<noteq> ack_of i"
  proof -
    from sent have i: "1 \<le> i" "i \<le> nextID ?s" by (simp_all add: sent_iff)
    have accepted: False if eq: "?A = map ack_of [1..<Suc m] @ xs" and im: "i \<le> m" for m xs
      using nth_acks[OF i(1) im, of xs] ne eq by simp
    have oc: "outcome ?s = Some (UnexpectedAck i (?A ! (i - 1)))"
    proof (cases "outcome ?s")
      case None
      show ?thesis
      proof (cases "phase ?s")
        case (AwaitingAck k)
        with inv have k: "k = nextID ?s" "acks ?s = []" "1 \<le> k"
          by (simp_all add: streamOut_inv_def)
        from k(3) obtain m where m: "k = Suc m" by (cases k) auto
        have A: "?A = map ack_of [1..<Suc m] @ []"
          using queue None AwaitingAck m k by (simp add: dequeued_def)
        then have "length ?A = m" by simp
        with len have "i \<le> m" by simp
        from accepted[OF A this] show ?thesis ..
      next
        case AwaitingSource
        have "?A = map ack_of [1..<Suc (nextID ?s)] @ acks ?s"
          using queue None AwaitingSource by (simp add: dequeued_def)
        from accepted[OF this i(2)] show ?thesis ..
      next
        case Exited
        with inv None show ?thesis by (simp add: streamOut_inv_def)
      qed
    next
      case (Some o')
      show ?thesis
      proof (cases o')
        case Completed
        have "?A = map ack_of [1..<Suc (nextID ?s)] @ acks ?s"
          using queue Some Completed inv by (simp add: dequeued_def streamOut_inv_def)
        from accepted[OF this i(2)] show ?thesis ..
      next
        case (UnexpectedAck k a)
        with inv Some have k: "k = nextID ?s" "1 \<le> k" by (simp_all add: streamOut_inv_def)
        from k(2) obtain m where m: "k = Suc m" by (cases k) auto
        have A: "?A = map ack_of [1..<Suc m] @ (a # acks ?s)"
          using queue Some UnexpectedAck m by (simp add: dequeued_def)
        show ?thesis
        proof (cases "i \<le> m")
          case True
          from accepted[OF A True] show ?thesis ..
        next
          case False
          with i(2) k m have "i = Suc m" by simp
          with A have "?A ! (i - 1) = a" by (simp add: nth_append)
          with Some UnexpectedAck \<open>i = Suc m\<close> m show ?thesis by simp
        qed
      qed
    qed
    with inv have c: "closer_closed ?s" by (simp add: streamOut_inv_def)
    from streamed_closed[OF c, of evs'] oc c show ?thesis by (simp add: streamOut_append)
  qed
  from ids queue acked mismatch show ?thesis by blast
qed

text \<open>
  In the example the 7 arrives before the second message is sent and waits in the queue;
  sending the second message takes it from there and the loop is left with the error.
\<close>

theorem stop_and_wait_witness:
  "length early_ack \<le> 2 ^ 53
   \<and> streamed (streamOut early_ack) = [(''a'', 1), (''b'', 2)]
   \<and> ack_frames early_ack = [Finite 1, Finite 7]
   \<and> take 1 (ack_frames early_ack) = [ack_of 1]
   \<and> ack_frames early_ack ! (2 - 1) \<noteq> ack_of 2
   \<and> outcome (streamOut early_ack) = Some (UnexpectedAck 2 (Finite 7))
   \<and> closer_closed (streamOut early_ack)
   \<and> streamed (streamOut (early_ack @ [AckFrame (Finite 2), SourceYields ''c''])) =
       [(''a'', 1), (''b'', 2)]"
proof -
  have s: "streamOut early_ack =
      \<lparr>nextID = 2, acks = [], phase = Exited, streamed = [(''a'', 1), (''b'', 2)],
       closer_closed = True, outcome = Some (UnexpectedAck 2 (Finite 7))\<rparr>"
    by (simp add: streamOut_def early_ack_def streamOut_step_def streamOut_init_def check_ack_def
        closer_close_def increment_def Let_def)
  have a: "ack_frames early_ack = [Finite 1, Finite 7]"
    by (simp add: ack_frames_def early_ack_def)
  have l: "length early_ack \<le> 2 ^ 53" by (simp add: early_ack_def)
  from stop_and_wait[OF l, of 1 2 "[AckFrame (Finite 2), SourceYields ''c'']"] s a l
  show ?thesis by (simp add: ack_of_def dequeued_def)
qed

text \<open>
  At the bound: once \<open>nextID\<close> is \<open>2^53\<close> the increment leaves it there, and the next
  message is sent with the identifier of the one before.
\<close>

lemma identifier_repeats_at_limit:
  assumes "nextID s = 2 ^ 53" and "phase s = AwaitingSource" and "\<not> closer_closed s"
  shows "snd (last (streamed (streamOut_step s (SourceYields m)))) = 2 ^ 53"
  using assms
  by (simp add: streamOut_step_def increment_def check_ack_def closer_close_def Let_def
      split: list.splits)

section \<open>Incremental replication\<close>

lemma failInLock_failed [simp]: "failure s = Some f \<Longrightarrow> failInLock s err = s"
  by (simp add: failInLock_def)

lemma processMessage_failed [simp]: "failure s = Some f \<Longrightarrow> processMessage env s m = s"
  by (simp add: processMessage_def)

lemma exited_step [simp]: "exited s \<Longrightarrow> processor_step env s ev = s"
  by (simp add: processor_step_def)

lemma exited_run: "exited s \<Longrightarrow> foldl (processor_step env) s evs = s"
  by (induction evs) simp_all

lemma lockRun_failed:
  assumes "failure s = Some f"
  shows "failure (lockRun env s) = Some f \<and> replica (lockRun env s) = replica s
     \<and> acknowledged (lockRun env s) = acknowledged s
     \<and> failService_calls (lockRun env s) = failService_calls s
     \<and> exited (lockRun env s) = exited s"
  using assms
  by (auto simp: lockRun_def run_transaction_def update_processor_def failInLock_def
      split: list.splits job.splits)

lemma step_failed:
  assumes "failure s = Some f"
  shows "failure (processor_step env s ev) = Some f \<and> replica (processor_step env s ev) = replica s
     \<and> acknowledged (processor_step env s ev) = acknowledged s
     \<and> failService_calls (processor_step env s ev) = failService_calls s
     \<and> exited (processor_step env s ev) = exited s"
  using assms lockRun_failed[OF assms, of env]
  by (cases ev) (simp_all add: processor_step_def lockBegin_def split: list.splits job.splits)

text \<open>
  Once the processor has failed, whatever messages arrive and whatever the lock runs, the
  replica, the acknowledgements and the failure stay as they are.
\<close>

lemma run_failed:
  "failure s = Some f \<Longrightarrow>
   failure (foldl (processor_step env) s evs) = Some f \<and> replica (foldl (processor_step env) s evs) = replica s
     \<and> acknowledged (foldl (processor_step env) s evs) = acknowledged s
     \<and> failService_calls (foldl (processor_step env) s evs) = failService_calls s"
proof (induction evs arbitrary: s)
  case Nil
  then show ?case by simp
next
  case (Cons ev evs)
  from step_failed[OF Cons.prems, of env ev] Cons.IH[of "processor_step env s ev"]
  show ?case by simp
qed

text \<open>
  And the callback of a transaction that runs then rejects its \<open>tx\<close> with the
  preceding-transaction error and leaves the transaction failed.
\<close>

lemma preceding_rejected:
  assumes "failure s = Some f" and "\<not> exited s" and "txSerializer s = TxJob k # rest"
    and "k < length (processors s)"
  shows "tx (processors (processor_step env s LockRun) ! k) = Rejected (PrecedingTransactionError f)
     \<and> tx_failure (processors (processor_step env s LockRun) ! k) \<noteq> None
     \<and> (tx_failure (processors s ! k) = None \<longrightarrow>
          tx_failure (processors (processor_step env s LockRun) ! k) = Some (PrecedingTransactionError f))
     \<and> txSerializer (processor_step env s LockRun) = rest"
  using assms
  by (simp add: processor_step_def lockRun_def run_transaction_def update_processor_def tx_fail_def)

lemma update_processor_keeps [simp]:
  "failure (update_processor s k g) = failure s"
  "replica (update_processor s k g) = replica s"
  "acknowledged (update_processor s k g) = acknowledged s"
  "txSerializer (update_processor s k g) = txSerializer s"
  "failService_calls (update_processor s k g) = failService_calls s"
  "exited (update_processor s k g) = exited s"
  "current (update_processor s k g) = current s"
  by (simp_all add: update_processor_def)

lemma fail_keeps:
  "failure (fail s e) = failure s \<and> replica (fail s e) = replica s
   \<and> acknowledged (fail s e) = acknowledged s
   \<and> (\<exists>new. txSerializer (fail s e) = txSerializer s @ new)"
  by (auto simp: fail_def Let_def split: option.splits)

text \<open>
  Receiving a message never sets the failure, changes neither the replica nor the
  acknowledgements, and only adds to the end of the lock's queue.
\<close>

lemma processMessage_keeps:
  "failure (processMessage env s m) = failure s \<and> replica (processMessage env s m) = replica s
   \<and> acknowledged (processMessage env s m) = acknowledged s
   \<and> (\<exists>new. txSerializer (processMessage env s m) = txSerializer s @ new)"
proof (cases "failure s")
  case (Some f)
  then show ?thesis by simp
next
  case None
  show ?thesis
  proof (cases m)
    case (Begin lsn)
    with None fail_keeps[of s] show ?thesis
      by (auto simp: processMessage_def createAndEnqueueNewTransaction_def Let_def
          split: option.splits)
  qed (use None fail_keeps[of s] in
        \<open>auto simp: processMessage_def split: option.splits\<close>)
qed

text \<open>
  While the processor has not failed, a transaction at the head of the queue that has
  not failed, has received its commit and whose statements succeed is committed and
  acknowledged.
\<close>

lemma healthy_transaction_commits:
  assumes "failure s = None" and "\<not> exited s" and "txSerializer s = TxJob k # rest"
    and "tx_failure (processors s ! k) = None" and "committed (processors s ! k)"
    and "exec_all env (pending (processors s ! k)) (replica s) = Inr db'"
  shows "replica (processor_step env s LockRun) = db'
     \<and> acknowledged (processor_step env s LockRun) = acknowledged s @ [commitLsn (processors s ! k)]
     \<and> failure (processor_step env s LockRun) = None
     \<and> txSerializer (processor_step env s LockRun) = rest"
  using assms by (simp add: processor_step_def lockRun_def run_transaction_def)

lemma is_repeat_tx_TxLog [simp]:
  "is_repeat_tx (PostgresError PG_UNIQUE_VIOLATION ''_zero'' ''TxLog'')"
  by (simp add: is_repeat_tx_def)

lemma exec_all_repeat:
  "v \<in> set (TxLog db) \<Longrightarrow>
   exec_all env (Inr (InsertTxLog v) # others) db =
     Inl (QueryRejected (PostgresError PG_UNIQUE_VIOLATION ''_zero'' ''TxLog''))"
  by (simp add: exec_stmt_def)

lemmas replicator_defs =
  processor_step_def processMessage_def lockRun_def run_transaction_def settle_def
  failInLock_def fail_def createAndEnqueueNewTransaction_def update_processor_def
  tx_process_def tx_processCommit_def tx_fail_def new_MessageProcessor_def counters_def
  exec_stmt_def is_repeat_tx_def PG_UNIQUE_VIOLATION_def awaits_processed_def lockBegin_def
  applied_def
  tx1_def tx2_def tx2_custom_type_def tx2_failing_def tx3_def Let_def

lemma replayed_eq:
  "replayed =
     \<lparr>failure = None, current = None,
      processors = [\<lparr>commitLsn = ''0/1'',
                     pending = [Inr (InsertTxLog ''0/1''), Inr (RowStmt 5)],
                     committed = True, tx_failure = None, tx = Pending, processed = Pending\<rparr>],
      txSerializer = [TxJob 0],
      replica = \<lparr>TxLog = [''0/1''], tables = [5]\<rparr>,
      acknowledged = [], failService_calls = [], exited = False\<rparr>"
  by (simp add: replayed_def replicator_defs)

text \<open>
  The step of the callback when the first statement of the transaction is the insert of a
  version that the transaction log holds, and the commit of the transaction has been
  processed: the replica is as it was, the commit position is acknowledged again, the
  processor has not failed and the queue goes on.
\<close>

lemma repeat_transaction_step:
  assumes "failure s = None" and "\<not> exited s" and "txSerializer s = TxJob k # rest"
    and "tx_failure (processors s ! k) = None" and "committed (processors s ! k)"
    and "pending (processors s ! k) = Inr (InsertTxLog v) # others"
    and "v \<in> set (TxLog (replica s))"
  shows "replica (processor_step env s LockRun) = replica s
     \<and> acknowledged (processor_step env s LockRun) = acknowledged s @ [commitLsn (processors s ! k)]
     \<and> failure (processor_step env s LockRun) = None
     \<and> failService_calls (processor_step env s LockRun) = failService_calls s
     \<and> txSerializer (processor_step env s LockRun) = rest
     \<and> \<not> exited (processor_step env s LockRun)"
  using assms exec_all_repeat[OF assms(7), of env others]
  by (simp add: processor_step_def lockRun_def run_transaction_def settle_def)

text \<open>
  The same step when the commit has not been processed: the rejected insert is awaited
  by nothing, the process ends, and the commit position is not acknowledged.
\<close>

lemma repeat_transaction_step_before_commit:
  assumes "failure s = None" and "\<not> exited s" and "txSerializer s = TxJob k # rest"
    and "tx_failure (processors s ! k) = None" and "\<not> committed (processors s ! k)"
    and "pending (processors s ! k) = Inr (InsertTxLog v) # others"
    and "v \<in> set (TxLog (replica s))"
  shows "exited (processor_step env s LockRun)
     \<and> acknowledged (processor_step env s LockRun) = acknowledged s
     \<and> replica (processor_step env s LockRun) = replica s"
  using assms exec_all_repeat[OF assms(7), of env others]
  by (simp add: processor_step_def lockRun_def run_transaction_def)

text \<open>
  A transaction that fails while it is assembled and whose database transaction has not
  begun: its \<open>processed\<close> is rejected with nothing awaiting it, and the process ends.
  Once the database transaction has begun the rejection is awaited, and the end of the
  callback fails the processor.
\<close>

lemma custom_type_before_transaction_begins:
  assumes "failure s = None" and "\<not> exited s" and "current s = Some k"
    and "tx_failure (processors s ! k) = None" and "tx (processors s ! k) = Pending"
  shows "exited (processor_step env s (Recv lsn (Type name)))
     \<and> replica (processor_step env s (Recv lsn (Type name))) = replica s
     \<and> acknowledged (processor_step env s (Recv lsn (Type name))) = acknowledged s"
  using assms
  by (simp add: processor_step_def processMessage_def fail_def awaits_processed_def Let_def)

lemma custom_type_after_transaction_begins:
  assumes "failure s = None" and "\<not> exited s" and "current s = Some k"
    and "txSerializer s = TxJob k # rest" and "k < length (processors s)"
    and "tx_failure (processors s ! k) = None" and "tx (processors s ! k) \<noteq> Pending"
  shows "\<not> exited (processor_step env s (Recv lsn (Type name)))
     \<and> failure (foldl (processor_step env) s [Recv lsn (Type name), LockRun]) =
         Some (Error ''Custom types are not supported'')
     \<and> replica (foldl (processor_step env) s [Recv lsn (Type name), LockRun]) = replica s
     \<and> acknowledged (foldl (processor_step env) s [Recv lsn (Type name), LockRun]) =
         acknowledged s"
  using assms
  by (simp add: processor_step_def processMessage_def fail_def awaits_processed_def Let_def
      lockRun_def run_transaction_def update_processor_def tx_fail_def settle_def
      is_repeat_tx_def failInLock_def)

subsection \<open>Every reachable state\<close>

lemma all_update:
  assumes "\<forall>x \<in> set xs. P x" and "\<And>x. P x \<Longrightarrow> P (f x)"
  shows "\<forall>x \<in> set (xs[k := f (xs ! k)]). P x"
proof (cases "k < length xs")
  case True
  with assms show ?thesis
    by (auto dest!: subsetD[OF set_update_subset_insert])
next
  case False
  then have "xs[k := f (xs ! k)] = xs" by (simp add: list_update_beyond)
  with assms(1) show ?thesis by simp
qed

lemma begins_tx_fail: "begins_with_TxLog env t \<Longrightarrow> begins_with_TxLog env (tx_fail t e)"
  by (auto simp: begins_with_TxLog_def tx_fail_def)

lemma begins_tx_process: "begins_with_TxLog env t \<Longrightarrow> begins_with_TxLog env (tx_process t st)"
  by (auto simp: begins_with_TxLog_def tx_process_def)

lemma begins_tx_processCommit:
  "begins_with_TxLog env t \<Longrightarrow> begins_with_TxLog env (tx_processCommit t)"
  by (auto simp: begins_with_TxLog_def tx_processCommit_def)

lemma begins_tx_handle: "begins_with_TxLog env t \<Longrightarrow> begins_with_TxLog env (t\<lparr>tx := h\<rparr>)"
  by (auto simp: begins_with_TxLog_def)

lemma begins_tx_handles:
  "begins_with_TxLog env t \<Longrightarrow> begins_with_TxLog env (t\<lparr>tx := h, processed := h'\<rparr>)"
  by (auto simp: begins_with_TxLog_def)

lemma inv_update_processor:
  assumes "processor_inv env s" and "\<And>t. begins_with_TxLog env t \<Longrightarrow> begins_with_TxLog env (g t)"
  shows "processor_inv env (update_processor s k g)"
proof -
  from assms(1) have a: "\<forall>t \<in> set (processors s). begins_with_TxLog env t"
    by (simp add: processor_inv_def)
  have "\<forall>t \<in> set ((processors s)[k := g (processors s ! k)]). begins_with_TxLog env t"
    using a assms(2) by (rule all_update)
  with assms(1) show ?thesis
    by (simp add: processor_inv_def update_processor_def)
qed

lemma inv_irrelevant:
  assumes "processor_inv env s" and "processors s' = processors s"
    and "set (txSerializer s') \<subseteq> set (txSerializer s) \<union> range FailJob"
  shows "processor_inv env s'"
  using assms unfolding processor_inv_def by auto

lemma inv_exited: "processor_inv env s \<Longrightarrow> processor_inv env (s\<lparr>exited := b\<rparr>)"
  by (rule inv_irrelevant) auto

lemma inv_fail: "processor_inv env s \<Longrightarrow> processor_inv env (fail s e)"
proof (cases "current s")
  case None
  assume "processor_inv env s"
  then have "processor_inv env (s\<lparr>txSerializer := txSerializer s @ [FailJob e]\<rparr>)"
    by (rule inv_irrelevant) auto
  with None show ?thesis by (simp add: fail_def)
next
  case (Some k)
  assume "processor_inv env s"
  from inv_update_processor[OF this begins_tx_fail] have
    u: "processor_inv env (update_processor s k (\<lambda>t. tx_fail t e))" .
  from u inv_exited[OF u] Some show ?thesis
    by (simp add: fail_def Let_def)
qed

lemma inv_failInLock: "processor_inv env s \<Longrightarrow> processor_inv env (failInLock s e)"
proof -
  assume a: "processor_inv env s"
  have "processor_inv env (s\<lparr>failure := Some e, failService_calls := failService_calls s @ [e]\<rparr>)"
    using a by (rule inv_irrelevant) auto
  with a show ?thesis by (simp add: failInLock_def)
qed

lemma inv_settle: "processor_inv env s \<Longrightarrow> processor_inv env (settle s lsn e)"
proof -
  assume a: "processor_inv env s"
  have "processor_inv env (s\<lparr>acknowledged := acknowledged s @ [lsn]\<rparr>)"
    using a by (rule inv_irrelevant) auto
  with a show ?thesis by (simp add: settle_def inv_failInLock)
qed

lemma inv_processMessage:
  assumes "processor_inv env s"
  shows "processor_inv env (processMessage env s m)"
proof (cases "failure s")
  case (Some f)
  with assms show ?thesis by (simp add: processMessage_def)
next
  case None
  show ?thesis
  proof (cases m)
    case (Begin lsn)
    show ?thesis
    proof (cases lsn)
      case n: None
      with None Begin assms show ?thesis by (simp add: processMessage_def inv_fail)
    next
      case (Some l)
      show ?thesis
      proof (cases "current s")
        case c: (Some k)
        with None Begin Some assms show ?thesis by (simp add: processMessage_def inv_fail)
      next
        case c: None
        have "processor_inv env
            (update_processor (createAndEnqueueNewTransaction s l) (length (processors s))
               (\<lambda>t. tx_process t (Inr (InsertTxLog (toLexiVersion env l)))))"
          using assms
          by (auto simp: processor_inv_def update_processor_def createAndEnqueueNewTransaction_def
              tx_process_def begins_with_TxLog_def less_Suc_eq)
        with None Begin Some c show ?thesis by (simp add: processMessage_def Let_def)
      qed
    qed
  next
    case (Relation d)
    with None assms show ?thesis
      by (auto simp: processMessage_def inv_fail split: option.splits)
  next
    case (Data d)
    with None assms show ?thesis
      by (auto simp: processMessage_def inv_fail inv_update_processor begins_tx_process
          split: option.splits)
  next
    case Commit
    have "processor_inv env (s\<lparr>current := None\<rparr>)"
      using assms by (rule inv_irrelevant) auto
    with None Commit assms show ?thesis
      by (auto simp: processMessage_def inv_fail inv_update_processor begins_tx_processCommit
          split: option.splits)
  next
    case Origin
    with None assms show ?thesis
      by (auto simp: processMessage_def inv_fail split: option.splits)
  next
    case (Type n)
    with None assms show ?thesis
      by (auto simp: processMessage_def inv_fail split: option.splits)
  next
    case (Unknown n)
    with None assms show ?thesis
      by (auto simp: processMessage_def inv_fail split: option.splits)
  qed
qed

lemma inv_run_transaction:
  assumes "processor_inv env s" and "txSerializer s = TxJob k # rest"
  shows "processor_inv env (run_transaction env s k rest)"
proof -
  have pop: "processor_inv env ((update_processor s k g)\<lparr>txSerializer := rest\<rparr>)"
    if g: "\<And>t. begins_with_TxLog env t \<Longrightarrow> begins_with_TxLog env (g t)" for g
  proof -
    have "processor_inv env (update_processor s k g)"
      using assms(1) g by (rule inv_update_processor)
    then show ?thesis
      using assms(2) by (auto simp: processor_inv_def update_processor_def)
  qed
  have pop2: "processor_inv env
        ((update_processor s k g)\<lparr>txSerializer := rest, replica := db, acknowledged := a\<rparr>)"
    if g: "\<And>t. begins_with_TxLog env t \<Longrightarrow> begins_with_TxLog env (g t)" for g db a
    using pop[OF g] by (simp add: processor_inv_def update_processor_def)
  have stay: "processor_inv env ((update_processor s k g)\<lparr>exited := True\<rparr>)"
    if g: "\<And>t. begins_with_TxLog env t \<Longrightarrow> begins_with_TxLog env (g t)" for g
    using inv_exited[OF inv_update_processor[OF assms(1) g]] .
  show ?thesis
  proof (cases "failure s")
    case (Some f)
    then show ?thesis
      using pop[of "\<lambda>t. tx_fail (t\<lparr>tx := Rejected (PrecedingTransactionError f)\<rparr>)
                     (PrecedingTransactionError f)"]
      by (simp add: run_transaction_def begins_tx_fail begins_tx_handle)
  next
    case None
    show ?thesis
    proof (cases "tx_failure (processors s ! k)")
      case (Some e)
      with None show ?thesis
        using inv_settle[OF pop[of "\<lambda>t. t\<lparr>tx := Resolved\<rparr>"]]
        by (simp add: run_transaction_def begins_tx_handle)
    next
      case n: None
      show ?thesis
      proof (cases "exec_all env (pending (processors s ! k)) (replica s)")
        case (Inl fs)
        show ?thesis
        proof (cases fs)
          case (Threw e)
          with Inl None n show ?thesis
            using inv_settle[OF pop[of "\<lambda>t. tx_fail (t\<lparr>tx := Resolved\<rparr>) e"]]
            by (simp add: run_transaction_def begins_tx_fail begins_tx_handle)
        next
          case (QueryRejected e)
          with Inl None n show ?thesis
            using inv_settle[OF pop[of "\<lambda>t. tx_fail (t\<lparr>tx := Resolved\<rparr>) e"]]
              stay[of "\<lambda>t. tx_fail (t\<lparr>tx := Resolved\<rparr>) e"]
            by (simp add: run_transaction_def begins_tx_fail begins_tx_handle Let_def)
        qed
      next
        case (Inr db')
        with None n assms(1) show ?thesis
          using pop2[of "\<lambda>t. t\<lparr>tx := Resolved, processed := Resolved\<rparr>"]
          by (simp add: run_transaction_def begins_tx_handles Let_def)
      qed
    qed
  qed
qed

lemma inv_lockRun:
  assumes "processor_inv env s"
  shows "processor_inv env (lockRun env s)"
proof (cases "txSerializer s")
  case Nil
  with assms show ?thesis by (simp add: lockRun_def)
next
  case (Cons j rest)
  show ?thesis
  proof (cases j)
    case (FailJob e)
    have "processor_inv env (s\<lparr>txSerializer := rest\<rparr>)"
      using assms by (rule inv_irrelevant) (auto simp: Cons)
    with Cons FailJob show ?thesis
      by (simp add: lockRun_def inv_failInLock)
  next
    case (TxJob k)
    with Cons inv_run_transaction[OF assms, of k rest] show ?thesis
      by (simp add: lockRun_def)
  qed
qed

lemma inv_lockBegin:
  assumes "processor_inv env s"
  shows "processor_inv env (lockBegin s)"
proof -
  have "processor_inv env
      (update_processor s k (\<lambda>t. if tx t = Pending then t\<lparr>tx := Resolved\<rparr> else t))" for k
    using assms by (rule inv_update_processor) (simp add: begins_with_TxLog_def)
  with assms show ?thesis
    by (simp add: lockBegin_def split: list.splits job.splits)
qed

lemma inv_reachable:
  "processor_inv env (foldl (processor_step env) (new_MessageProcessor db) evs)"
proof (induction evs rule: rev_induct)
  case Nil
  then show ?case by (simp add: processor_inv_def new_MessageProcessor_def)
next
  case (snoc ev evs)
  then show ?case
    by (cases ev)
       (simp_all add: processor_step_def inv_processMessage inv_lockRun inv_lockBegin)
qed

text \<open>
  In every state the processor reaches, a transaction at the head of the lock's queue
  whose version is in the transaction log already: when its commit has been processed
  the callback acknowledges it again and the processor goes on; when its commit has not
  arrived the process ends and nothing is acknowledged.
\<close>

lemma repeat_transaction_reached:
  assumes "s = foldl (processor_step env) (new_MessageProcessor db) evs"
    and "failure s = None" and "\<not> exited s" and "txSerializer s = TxJob k # rest"
    and "tx_failure (processors s ! k) = None"
    and "toLexiVersion env (commitLsn (processors s ! k)) \<in> set (TxLog (replica s))"
  shows "committed (processors s ! k) \<longrightarrow>
           replica (processor_step env s LockRun) = replica s
           \<and> acknowledged (processor_step env s LockRun) =
               acknowledged s @ [commitLsn (processors s ! k)]
           \<and> failure (processor_step env s LockRun) = None
           \<and> failService_calls (processor_step env s LockRun) = failService_calls s
           \<and> txSerializer (processor_step env s LockRun) = rest
           \<and> \<not> exited (processor_step env s LockRun)"
    and "\<not> committed (processors s ! k) \<longrightarrow>
           exited (processor_step env s LockRun)
           \<and> acknowledged (processor_step env s LockRun) = acknowledged s
           \<and> replica (processor_step env s LockRun) = replica s"
proof -
  have inv: "processor_inv env s" unfolding assms(1) by (rule inv_reachable)
  with assms(4) have "k < length (processors s)" by (simp add: processor_inv_def)
  with inv have "begins_with_TxLog env (processors s ! k)"
    by (simp add: processor_inv_def)
  then obtain others where p:
    "pending (processors s ! k) =
       Inr (InsertTxLog (toLexiVersion env (commitLsn (processors s ! k)))) # others"
    by (auto simp: begins_with_TxLog_def)
  show "committed (processors s ! k) \<longrightarrow>
           replica (processor_step env s LockRun) = replica s
           \<and> acknowledged (processor_step env s LockRun) =
               acknowledged s @ [commitLsn (processors s ! k)]
           \<and> failure (processor_step env s LockRun) = None
           \<and> failService_calls (processor_step env s LockRun) = failService_calls s
           \<and> txSerializer (processor_step env s LockRun) = rest
           \<and> \<not> exited (processor_step env s LockRun)"
    using repeat_transaction_step[OF assms(2,3,4,5) _ p assms(6)] by blast
  show "\<not> committed (processors s ! k) \<longrightarrow>
           exited (processor_step env s LockRun)
           \<and> acknowledged (processor_step env s LockRun) = acknowledged s
           \<and> replica (processor_step env s LockRun) = replica s"
    using repeat_transaction_step_before_commit[OF assms(2,3,4,5) _ p assms(6)] by blast
qed

text \<open>
  The transaction \<open>0/1\<close> is in the replica and arrives again. When all of it has
  arrived before the lock runs its callback, it is acknowledged again, and the next
  transaction is committed and acknowledged.
\<close>

lemma replay_then_continue:
  "foldl (processor_step counters) (new_MessageProcessor applied)
     (tx1 @ [LockRun] @ tx2 @ [LockRun]) =
   \<lparr>failure = None, current = None,
    processors = [\<lparr>commitLsn = ''0/1'',
                   pending = [Inr (InsertTxLog ''0/1''), Inr (RowStmt 5)],
                   committed = True,
                   tx_failure = Some (PostgresError ''23505'' ''_zero'' ''TxLog''),
                   tx = Resolved,
                   processed = Rejected (PostgresError ''23505'' ''_zero'' ''TxLog'')\<rparr>,
                  \<lparr>commitLsn = ''0/2'',
                   pending = [Inr (InsertTxLog ''0/2''), Inr (RowStmt 6)],
                   committed = True, tx_failure = None, tx = Resolved, processed = Resolved\<rparr>],
    txSerializer = [],
    replica = \<lparr>TxLog = [''0/1'', ''0/2''], tables = [5, 6]\<rparr>,
    acknowledged = [''0/1'', ''0/2''], failService_calls = [], exited = False\<rparr>"
  by (simp add: replicator_defs)

text \<open>
  C4 (the code departs from the claim). The transaction \<open>0/1\<close> is in the replica and
  arrives again, and the database rejects the insert into the transaction log before the
  commit message of the transaction has arrived. The unique violation fails the
  transaction, but the rejected query is awaited by nothing: the process ends. The
  commit position is not acknowledged again, and the transaction \<open>0/2\<close>, which
  follows, is not applied, where the claim has the replicator acknowledge, skip and go
  on with the stream.
\<close>

theorem replay_before_commit_ends_process:
  "foldl (processor_step counters) (new_MessageProcessor applied)
     ([Recv ''0/0'' (Begin (Some ''0/1'')), Recv ''0/0'' (Data (Inr 5)), LockRun,
       Recv ''0/1'' Commit] @ tx2 @ [LockRun]) =
   \<lparr>failure = None, current = Some 0,
    processors = [\<lparr>commitLsn = ''0/1'',
                   pending = [Inr (InsertTxLog ''0/1''), Inr (RowStmt 5)],
                   committed = False,
                   tx_failure = Some (PostgresError ''23505'' ''_zero'' ''TxLog''),
                   tx = Resolved,
                   processed = Rejected (PostgresError ''23505'' ''_zero'' ''TxLog'')\<rparr>],
    txSerializer = [TxJob 0],
    replica = \<lparr>TxLog = [''0/1''], tables = [5]\<rparr>,
    acknowledged = [], failService_calls = [], exited = True\<rparr>"
  by (simp add: replicator_defs)

text \<open>
  A transaction whose callback ends with an error that is not the repeat of a
  transaction fails the processor: the replica and the acknowledgements stay, the
  failure is set and the service is told.
\<close>

lemma failing_transaction_fails_processor:
  assumes "failure s = None" and "\<not> exited s" and "txSerializer s = TxJob k # rest"
    and "tx_failure (processors s ! k) = Some e
         \<or> tx_failure (processors s ! k) = None
            \<and> (exec_all env (pending (processors s ! k)) (replica s) = Inl (Threw e)
               \<or> exec_all env (pending (processors s ! k)) (replica s) = Inl (QueryRejected e)
                  \<and> committed (processors s ! k))"
    and "\<not> is_repeat_tx e"
  shows "failure (processor_step env s LockRun) = Some e
     \<and> replica (processor_step env s LockRun) = replica s
     \<and> acknowledged (processor_step env s LockRun) = acknowledged s
     \<and> failService_calls (processor_step env s LockRun) = failService_calls s @ [e]
     \<and> txSerializer (processor_step env s LockRun) = rest"
  using assms
  by (auto simp: processor_step_def lockRun_def run_transaction_def settle_def failInLock_def)

text \<open>
  In the example the database rejects the statement of the second transaction, whose
  commit has been processed. The first transaction is committed; the processor has
  failed; the third, queued behind, is rejected when its callback runs; and nothing that
  follows changes the replica or is acknowledged.
\<close>

lemma poisoned_eq:
  "poisoned =
     \<lparr>failure = Some (PostgresError ''23502'' ''public'' ''issues''), current = None,
      processors =
        [\<lparr>commitLsn = ''0/1'', pending = [Inr (InsertTxLog ''0/1''), Inr (RowStmt 5)],
          committed = True, tx_failure = None, tx = Resolved, processed = Resolved\<rparr>,
         \<lparr>commitLsn = ''0/2'', pending = [Inr (InsertTxLog ''0/2''), Inr (RowStmt 0)],
          committed = True, tx_failure = Some (PostgresError ''23502'' ''public'' ''issues''),
          tx = Resolved, processed = Rejected (PostgresError ''23502'' ''public'' ''issues'')\<rparr>,
         \<lparr>commitLsn = ''0/3'', pending = [Inr (InsertTxLog ''0/3''), Inr (RowStmt 7)],
          committed = True, tx_failure = None, tx = Pending, processed = Pending\<rparr>],
      txSerializer = [TxJob 2],
      replica = \<lparr>TxLog = [''0/1''], tables = [5]\<rparr>,
      acknowledged = [''0/1''],
      failService_calls = [PostgresError ''23502'' ''public'' ''issues''], exited = False\<rparr>"
  by (simp add: poisoned_def replicator_defs)

lemma poisoned_stays:
  "replica (foldl (processor_step counters) poisoned evs) = \<lparr>TxLog = [''0/1''], tables = [5]\<rparr>
   \<and> acknowledged (foldl (processor_step counters) poisoned evs) = [''0/1'']
   \<and> tx (processors (processor_step counters poisoned LockRun) ! 2) =
        Rejected (PrecedingTransactionError (PostgresError ''23502'' ''public'' ''issues''))"
proof -
  have f: "failure poisoned = Some (PostgresError ''23502'' ''public'' ''issues'')"
    by (simp add: poisoned_eq)
  from run_failed[OF f, of counters evs]
    preceding_rejected[OF f, of 2 "[]" counters]
  show ?thesis by (simp add: poisoned_eq)
qed

text \<open>
  C6 (the code departs from the claim). The transaction \<open>0/1\<close> has arrived whole and
  its callback is on the lock; the transaction \<open>0/2\<close> is queued behind it and receives
  a message of a custom type while it is assembled. Failing \<open>0/2\<close> rejects its
  \<open>processed\<close>, which nothing awaits while its callback waits behind that of
  \<open>0/1\<close>: the process ends. The transaction \<open>0/1\<close>, enqueued before the failure,
  is never committed nor acknowledged, whatever the lock would have run afterwards,
  where the claim has the transactions enqueued before the failure complete. The rest of
  the claim is in \<open>failing_transaction_fails_processor\<close>, \<open>run_failed\<close> and
  \<open>preceding_rejected\<close>.
\<close>

theorem failure_behind_pending_transaction_ends_process:
  "foldl (processor_step counters) (new_MessageProcessor \<lparr>TxLog = [], tables = []\<rparr>)
     (tx1 @ tx2_custom_type @ tx3 @ [LockRun, LockRun, LockRun]) =
   \<lparr>failure = None, current = Some 1,
    processors =
      [\<lparr>commitLsn = ''0/1'', pending = [Inr (InsertTxLog ''0/1''), Inr (RowStmt 5)],
        committed = True, tx_failure = None, tx = Pending, processed = Pending\<rparr>,
       \<lparr>commitLsn = ''0/2'', pending = [Inr (InsertTxLog ''0/2'')],
        committed = False, tx_failure = Some (Error ''Custom types are not supported''),
        tx = Pending, processed = Rejected (Error ''Custom types are not supported'')\<rparr>],
    txSerializer = [TxJob 0, TxJob 1],
    replica = \<lparr>TxLog = [], tables = []\<rparr>,
    acknowledged = [], failService_calls = [], exited = True\<rparr>"
  by (simp add: replicator_defs)

section \<open>View syncer and CVR\<close>

lemma apply_ops_bad:
  "list_ex (bad_ast ck) patch \<Longrightarrow> isl (apply_ops ck c client v patch)"
  by (induction patch arbitrary: c) (auto simp: bad_ast_def split: QueriesPatchOp.splits)

lemma putDesiredQueries_bad:
  "list_ex (bad_ast ck) patch \<Longrightarrow> isl (putDesiredQueries ck c client patch)"
  by (simp add: putDesiredQueries_def Let_def apply_ops_bad)

text \<open>
  Where the claim fails as it is stated: it has both operations reject. On a message
  from a superseded connection \<open>changeDesiredQueries\<close> does not: the client \<open>foo\<close>
  is connected on \<open>ws1\<close>, the patch from \<open>ws0\<close> holds the query that does not
  compile, and the operation returns without an error.
\<close>

theorem superseded_bad_ast_is_not_rejected:
  "list_ex (bad_ast (compiles test_env)) [PutQuery ''bad-query'' INVALID_QUERY]
   \<and> vs_changeDesiredQueries test_env connected SUPERSEDED_CONTEXT
         [PutQuery ''bad-query'' INVALID_QUERY] = (Inr (), connected)"
  by (simp add: vs_changeDesiredQueries_def bad_ast_def test_env_def test_schema_def
      INVALID_QUERY_def connected_def SUPERSEDED_CONTEXT_def)

text \<open>
  C5. A patch holds an AST that does not compile. Then \<open>initConnection\<close> rejects and
  leaves the view syncer, and with it the CVR, exactly as it was: no client, no query and
  no version is recorded. \<open>changeDesiredQueries\<close> leaves it exactly as it was too; it
  rejects when the message comes from the client's current connection, and returns
  without an error when the message comes from a superseded one.
\<close>

theorem bad_ast_leaves_cvr:
  assumes "list_ex (bad_ast (compiles env)) patch"
  shows "isl (fst (vs_initConnection env vs ctx patch))
     \<and> snd (vs_initConnection env vs ctx patch) = vs
     \<and> snd (vs_changeDesiredQueries env vs ctx patch) = vs
     \<and> (map_of (connections vs) (clientID ctx) = Some (wsID ctx) \<longrightarrow>
          isl (fst (vs_changeDesiredQueries env vs ctx patch)))
     \<and> (map_of (connections vs) (clientID ctx) \<noteq> Some (wsID ctx) \<longrightarrow>
          fst (vs_changeDesiredQueries env vs ctx patch) = Inr ())"
  using putDesiredQueries_bad[OF assms, of "view_cvr vs" "clientID ctx"]
  by (auto simp: vs_initConnection_def vs_changeDesiredQueries_def split: sum.splits)

lemma connected_from_empty:
  "vs_initConnection test_env
     \<lparr>view_cvr = \<lparr>cvr_id = ''9876'', version = \<lparr>stateVersion = ''00'', minorVersion = None\<rparr>,
                  clients = [], queries = [], rowRecords = [], rowPatches = []\<rparr>,
      connections = []\<rparr>
     SYNC_CONTEXT [PutQuery ''query-hash1'' ISSUES_TITLE_QUERY] = (Inr (), connected)"
  by (simp add: vs_initConnection_def putDesiredQueries_def put_op_def client_of_def next_minor_def
      test_env_def test_schema_def ISSUES_TITLE_QUERY_def SYNC_CONTEXT_def connected_def Let_def)

theorem bad_ast_leaves_cvr_witness:
  "list_ex (bad_ast (compiles test_env)) [PutQuery ''bad-query'' INVALID_QUERY]
   \<and> isl (fst (vs_initConnection test_env connected SYNC_CONTEXT
                 [PutQuery ''bad-query'' INVALID_QUERY]))
   \<and> snd (vs_initConnection test_env connected SYNC_CONTEXT
             [PutQuery ''bad-query'' INVALID_QUERY]) = connected
   \<and> map_of (connections connected) (clientID SYNC_CONTEXT) = Some (wsID SYNC_CONTEXT)
   \<and> isl (fst (vs_changeDesiredQueries test_env connected SYNC_CONTEXT
                 [PutQuery ''bad-query'' INVALID_QUERY]))
   \<and> snd (vs_changeDesiredQueries test_env connected SYNC_CONTEXT
             [PutQuery ''bad-query'' INVALID_QUERY]) = connected
   \<and> map_of (connections connected) (clientID SUPERSEDED_CONTEXT) \<noteq> Some (wsID SUPERSEDED_CONTEXT)
   \<and> fst (vs_changeDesiredQueries test_env connected SUPERSEDED_CONTEXT
             [PutQuery ''bad-query'' INVALID_QUERY]) = Inr ()
   \<and> snd (vs_changeDesiredQueries test_env connected SUPERSEDED_CONTEXT
             [PutQuery ''bad-query'' INVALID_QUERY]) = connected"
proof -
  have bad: "list_ex (bad_ast (compiles test_env)) [PutQuery ''bad-query'' INVALID_QUERY]"
    by (simp add: bad_ast_def test_env_def test_schema_def INVALID_QUERY_def)
  have live: "map_of (connections connected) (clientID SYNC_CONTEXT) = Some (wsID SYNC_CONTEXT)"
    by (simp add: connected_def SYNC_CONTEXT_def)
  have gone: "map_of (connections connected) (clientID SUPERSEDED_CONTEXT) \<noteq>
      Some (wsID SUPERSEDED_CONTEXT)"
    by (simp add: connected_def SUPERSEDED_CONTEXT_def)
  from bad_ast_leaves_cvr[OF bad, of connected SYNC_CONTEXT]
    bad_ast_leaves_cvr[OF bad, of connected SUPERSEDED_CONTEXT] bad live gone
  show ?thesis by simp
qed

lemma redact_fields [simp]:
  "rid (redact r) = rid r" "row_version (redact r) = row_version r"
  "by_query (redact r) = by_query r" "map fst (contents (redact r)) = map fst (contents r)"
  by (simp_all add: redact_def comp_def)

lemma sendable_redact [simp]: "sendable (redact r)"
  by (simp add: sendable_def redact_def list_all_iff)

lemma columns_of_redact [simp]: "columns_of (map redact rs) r = columns_of rs r"
proof -
  have "foldl (\<lambda>cols x. if rid x = r then foldr (add_column (by_query x)) (map fst (contents x)) cols
                      else cols) acc (map redact rs)
      = foldl (\<lambda>cols x. if rid x = r then foldr (add_column (by_query x)) (map fst (contents x)) cols
                      else cols) acc rs" for acc
    by (induction rs arbitrary: acc) simp_all
  then show ?thesis by (simp add: columns_of_def)
qed

lemma version_of_redact [simp]: "version_of (map redact rs) r = version_of rs r"
proof -
  have "filter (\<lambda>x. rid x = r) (map redact rs) = map redact (filter (\<lambda>x. rid x = r) rs)"
    by (induction rs) simp_all
  then show ?thesis by (simp add: version_of_def split: list.splits)
qed

lemma row_ids_redact [simp]: "row_ids (map redact rs) = row_ids rs"
  by (simp add: row_ids_def comp_def)

lemma unchanged_redact [simp]: "unchanged c (map redact rs) r = unchanged c rs r"
  by (simp add: unchanged_def split: option.splits)

lemma reconcileRows_redact: "reconcileRows c v (map redact rs) = reconcileRows c v rs"
  by (simp add: reconcileRows_def)

text \<open>
  C2. A commit whose rows hold a value that cannot be sent: the poke fails with the
  protocol error, the CVR is at the commit's state version, and the CVR is the very one
  the commit leaves when the values that cannot be sent are replaced by values that can,
  in which case the poke succeeds.
\<close>

theorem unsendable_commit_advances_cvr:
  assumes "list_ex (\<lambda>r. \<not> sendable r) results"
  shows "snd (process_commit c v results) = Inl ProtocolError
     \<and> stateVersion (version (fst (process_commit c v results))) = v
     \<and> fst (process_commit c v results) = fst (process_commit c v (map redact results))
     \<and> \<not> isl (snd (process_commit c v (map redact results)))"
proof -
  from assms have "\<not> list_all sendable results"
    by (auto simp: list_ex_iff list_all_iff)
  moreover have "list_all sendable (map redact results)"
    by (simp add: list_all_iff)
  ultimately show ?thesis
    by (simp add: process_commit_def reconcileRows_redact advanceVersion_def split: prod.splits)
qed

theorem unsendable_commit_advances_cvr_witness:
  "list_ex (\<lambda>r. \<not> sendable r) unsafe_results
   \<and> snd (process_commit (view_cvr connected) ''1xz'' unsafe_results) = Inl ProtocolError
   \<and> version (fst (process_commit (view_cvr connected) ''1xz'' unsafe_results)) =
       \<lparr>stateVersion = ''1xz'', minorVersion = None\<rparr>
   \<and> rowRecords (fst (process_commit (view_cvr connected) ''1xz'' unsafe_results)) =
       [(issue ''1'', \<lparr>row_patchVersion = ''1xz'',
                       queriedColumns = [(''big'', [''query-hash1'']), (''id'', [''query-hash1''])],
                       rowVersion = ''1a0''\<rparr>),
        (issue ''4'', \<lparr>row_patchVersion = ''1xz'',
                       queriedColumns = [(''big'', [''query-hash1'']), (''id'', [''query-hash1''])],
                       rowVersion = ''1cd''\<rparr>)]
   \<and> list_ex (\<lambda>r. \<not> sendable r) nested_unsafe_results
   \<and> snd (process_commit (view_cvr connected) ''1xz'' nested_unsafe_results) = Inl ProtocolError
   \<and> stateVersion (version (fst (process_commit (view_cvr connected) ''1xz''
         nested_unsafe_results))) = ''1xz''"
proof -
  have nested: "list_ex (\<lambda>r. \<not> sendable r) nested_unsafe_results"
    by (simp add: nested_unsafe_results_def sendable_def)
  note n = unsendable_commit_advances_cvr[OF nested, of "view_cvr connected" "''1xz''"]
  have uns: "list_ex (\<lambda>r. \<not> sendable r) unsafe_results"
    by (simp add: unsafe_results_def sendable_def)
  have "rowRecords (fst (process_commit (view_cvr connected) ''1xz'' unsafe_results)) =
       [(issue ''1'', \<lparr>row_patchVersion = ''1xz'',
                       queriedColumns = [(''big'', [''query-hash1'']), (''id'', [''query-hash1''])],
                       rowVersion = ''1a0''\<rparr>),
        (issue ''4'', \<lparr>row_patchVersion = ''1xz'',
                       queriedColumns = [(''big'', [''query-hash1'']), (''id'', [''query-hash1''])],
                       rowVersion = ''1cd''\<rparr>)]"
    by (simp add: process_commit_def reconcileRows_def row_ids_def unchanged_def columns_of_def
        version_of_def add_column_def advanceVersion_def unsafe_results_def connected_def issue_def
        Let_def)
  with unsendable_commit_advances_cvr[OF uns, of "view_cvr connected" "''1xz''"] uns nested n
  show ?thesis
    by (simp add: process_commit_def advanceVersion_def split: prod.splits)
qed

end
